theory Spec2Isabelle
  imports Main "HOL-Library.Char_ord" "HOL-Library.List_Lexorder" "HOL-Library.Multiset"
begin

text \<open>
  A model of the alias namespace and of the search of the URL shortcut extension: the
  validators, the shortcut service and the folder service over their record stores, the
  query controller with its result cache, and the debounced search; then the properties
  C1 to C10 of the specification, each proved of the model or shown to fail on it.
\<close>

section \<open>Strings\<close>

text \<open>
  A JavaScript string is modelled as a \<open>string\<close>; a \<open>char\<close> stands for one code unit
  in the range 0..255 (ASCII and Latin-1).  A missing (\<open>undefined\<close>, \<open>null\<close>) string
  argument is modelled by the empty string wherever the source treats both alike
  (\<open>!x\<close>, \<open>x || ''\<close>).
\<close>

definition code :: "char \<Rightarrow> nat" where
  "code c = of_char c"

definition isWhiteSpace :: "char \<Rightarrow> bool" where
  \<comment> \<open>what \<open>String.prototype.trim\<close> strips, within the range 0..255\<close>
  "isWhiteSpace c = (code c = 9 \<or> code c = 10 \<or> code c = 11 \<or> code c = 12 \<or> code c = 13
                     \<or> code c = 32 \<or> code c = 160)"

definition trim :: "string \<Rightarrow> string" where
  "trim s = rev (dropWhile isWhiteSpace (rev (dropWhile isWhiteSpace s)))"

definition isUpper :: "char \<Rightarrow> bool" where
  "isUpper c = (65 \<le> code c \<and> code c \<le> 90)"

definition isLower :: "char \<Rightarrow> bool" where
  "isLower c = (97 \<le> code c \<and> code c \<le> 122)"

definition isDigit :: "char \<Rightarrow> bool" where
  "isDigit c = (48 \<le> code c \<and> code c \<le> 57)"

definition lowerChar :: "char \<Rightarrow> char" where
  \<comment> \<open>\<open>toLowerCase\<close> on one code unit: A-Z, and the Latin-1 capitals except the
      multiplication sign\<close>
  "lowerChar c =
     (if isUpper c \<or> (192 \<le> code c \<and> code c \<le> 222 \<and> code c \<noteq> 215)
      then char_of (code c + 32) else c)"

definition toLowerCase :: "string \<Rightarrow> string" where
  "toLowerCase s = map lowerChar s"

fun startsWith :: "string \<Rightarrow> string \<Rightarrow> bool" where
  "startsWith s [] = True"
| "startsWith [] (q # qs) = False"
| "startsWith (c # cs) (q # qs) = (c = q \<and> startsWith cs qs)"

fun includesStr :: "string \<Rightarrow> string \<Rightarrow> bool" where
  \<comment> \<open>\<open>s.includes(q)\<close>: \<open>q\<close> occurs in \<open>s\<close> as a substring\<close>
  "includesStr [] q = (q = [])"
| "includesStr (c # cs) q = (startsWith (c # cs) q \<or> includesStr cs q)"

fun splitOn :: "char \<Rightarrow> string \<Rightarrow> string list" where
  \<comment> \<open>\<open>s.split(sep)\<close> for a one-character separator\<close>
  "splitOn sep [] = [[]]"
| "splitOn sep (c # cs) =
     (if c = sep then [] # splitOn sep cs
      else (case splitOn sep cs of [] \<Rightarrow> [[c]] | w # ws \<Rightarrow> (c # w) # ws))"

section \<open>Validators (services/validators.js)\<close>

datatype validation = Valid | Invalid string

definition aliasChar :: "char \<Rightarrow> bool" where
  \<comment> \<open>the class \<open>[a-z0-9\-]\<close>\<close>
  "aliasChar c = (isLower c \<or> isDigit c \<or> c = CHR ''-'')"

definition folderChar :: "char \<Rightarrow> bool" where
  \<comment> \<open>the class \<open>[a-zA-Z0-9\-_]\<close>\<close>
  "folderChar c = (isLower c \<or> isUpper c \<or> isDigit c \<or> c = CHR ''-'' \<or> c = CHR ''_'')"

definition testPlus :: "(char \<Rightarrow> bool) \<Rightarrow> string \<Rightarrow> bool" where
  \<comment> \<open>\<open>/^[class]+$/.test(s)\<close>\<close>
  "testPlus cls s = (s \<noteq> [] \<and> list_all cls s)"

definition validateUrl :: "(string \<Rightarrow> string option) \<Rightarrow> string \<Rightarrow> validation" where
  \<comment> \<open>\<open>protocolOf\<close> stands for the platform's URL parser: \<open>new URL(s).protocol\<close>, or
      \<open>None\<close> where the constructor throws\<close>
  "validateUrl protocolOf url =
     (if url = [] then Invalid ''URL is required''
      else let trimmed = trim url in
        if trimmed = [] then Invalid ''URL cannot be empty''
        else if length trimmed > 2048 then Invalid ''URL is too long (max 2048 characters)''
        else (case protocolOf trimmed of
                None \<Rightarrow> Invalid ''Invalid URL format''
              | Some p \<Rightarrow>
                  if p = ''http:'' \<or> p = ''https:'' then Valid
                  else Invalid ''URL must use HTTP or HTTPS protocol''))"

definition validateAlias :: "string \<Rightarrow> validation" where
  "validateAlias alias =
     (if alias = [] then Invalid ''Alias is required''
      else let trimmed = trim alias in
        if trimmed = [] then Invalid ''Alias cannot be empty''
        else if length trimmed < 1 then Invalid ''Alias must be at least 1 character''
        else if length trimmed > 50 then Invalid ''Alias must be max 50 characters''
        else if \<not> testPlus aliasChar trimmed
          then Invalid ''Alias must be lowercase, no spaces, only letters, numbers, and hyphens (-)''
        else Valid)"

definition validateFolderName :: "string \<Rightarrow> validation" where
  "validateFolderName folderName =
     (if folderName = [] then Valid
      else let trimmed = trim folderName in
        if trimmed = [] then Valid
        else if length trimmed < 1 then Invalid ''Folder must be at least 1 character''
        else if length trimmed > 30 then Invalid ''Folder name must be max 30 characters''
        else if \<not> testPlus folderChar trimmed
          then Invalid ''Folder name can only contain letters, numbers, hyphens (-), and underscores (_)''
        else Valid)"

definition validateTag :: "string \<Rightarrow> validation" where
  "validateTag tag =
     (if tag = [] then Invalid ''Tag must be a string''
      else let trimmed = trim tag in
        if trimmed = [] then Invalid ''Tag cannot be empty''
        else if length trimmed > 20 then Invalid ''Each tag must be max 20 characters''
        else if trimmed \<noteq> toLowerCase trimmed then Invalid ''Tags must be lowercase only''
        else if \<not> testPlus aliasChar trimmed
          then Invalid ''Tags can only contain lowercase letters, numbers, and hyphens (-)''
        else Valid)"

text \<open>The \<open>tags\<close> argument is a comma-separated string or an array of strings; a missing
  value behaves as the empty string.\<close>

datatype tagsInput = TagsString string | TagsArray "string list"

datatype tagsValidation = TagsValid "string list" | TagsInvalid string

fun firstInvalidTag :: "string list \<Rightarrow> string option" where
  \<comment> \<open>the loop \<open>for (const tag of tagArray)\<close>: the error of the first invalid tag\<close>
  "firstInvalidTag [] = None"
| "firstInvalidTag (t # ts) =
     (case validateTag t of Invalid e \<Rightarrow> Some e | Valid \<Rightarrow> firstInvalidTag ts)"

fun uniqueInOrder :: "string list \<Rightarrow> string list" where
  \<comment> \<open>\<open>[...new Set(xs)]\<close>: the first occurrence of each element, in order\<close>
  "uniqueInOrder [] = []"
| "uniqueInOrder (x # xs) = x # uniqueInOrder (filter (\<lambda>y. y \<noteq> x) xs)"

definition tagEntries :: "tagsInput \<Rightarrow> string list" where
  \<comment> \<open>\<open>tagArray\<close> after splitting, trimming and dropping the empty entries\<close>
  "tagEntries tags =
     filter (\<lambda>t. length t > 0)
       (case tags of TagsString s \<Rightarrow> map trim (splitOn CHR '','' s)
                   | TagsArray ts \<Rightarrow> map trim ts)"

definition validateTags :: "tagsInput \<Rightarrow> tagsValidation" where
  "validateTags tags =
     (if tags = TagsString [] then TagsValid []
      else if (case tags of TagsString s \<Rightarrow> trim s = [] | TagsArray ts \<Rightarrow> False) then TagsValid []
      else let tagArray = tagEntries tags in
        if length tagArray > 0 \<and> length tagArray > 20 then TagsInvalid ''Maximum 20 tags allowed''
        else (case firstInvalidTag tagArray of
                Some e \<Rightarrow> TagsInvalid e
              | None \<Rightarrow> TagsValid (sort (uniqueInOrder tagArray))))"

definition caseInsensitiveEqual :: "string \<Rightarrow> string \<Rightarrow> bool" where
  "caseInsensitiveEqual a b = (toLowerCase (trim a) = toLowerCase (trim b))"

text \<open>
  \<open>validateShortcut\<close> collects one error message per invalid field, or returns the
  normalised tags.
\<close>

record shortcutData =
  d_url :: string
  d_alias :: string
  d_folder :: string
  d_tags :: tagsInput

record validationErrors =
  e_url :: "string option"
  e_alias :: "string option"
  e_folder :: "string option"
  e_tags :: "string option"

definition errorOf :: "validation \<Rightarrow> string option" where
  "errorOf v = (case v of Valid \<Rightarrow> None | Invalid e \<Rightarrow> Some e)"

definition validateShortcut ::
  "(string \<Rightarrow> string option) \<Rightarrow> shortcutData \<Rightarrow> validationErrors + string list" where
  "validateShortcut protocolOf d =
     (let errors = \<lparr> e_url = errorOf (validateUrl protocolOf (d_url d)),
                      e_alias = errorOf (validateAlias (d_alias d)),
                      e_folder = errorOf (validateFolderName (d_folder d)),
                      e_tags = (case validateTags (d_tags d) of
                                  TagsValid ts \<Rightarrow> None | TagsInvalid e \<Rightarrow> Some e) \<rparr>
      in case validateTags (d_tags d) of
           TagsValid ts \<Rightarrow>
             if e_url errors = None \<and> e_alias errors = None \<and> e_folder errors = None
             then Inr ts else Inl errors
         | TagsInvalid e \<Rightarrow> Inl errors)"

section \<open>Shortcuts and the record store\<close>

text \<open>
  Times (\<open>formatDateISO()\<close>, \<open>Date.now()\<close>) are natural numbers, the milliseconds since
  the epoch; every operation takes the time \<open>now\<close> of its call.
\<close>

record shortcut =
  sid :: string
  url :: string
  aliasName :: string
  folder :: string
  tags :: "string list"
  createdAt :: nat
  updatedAt :: nat
  lastAccessed :: "nat option"
  lastAccessedAt :: "nat option"
  accessCount :: nat
  isFavorite :: bool

text \<open>
  Modelled from the spec: the record store of the shortcuts, the browser's IndexedDB object
  store that \<open>initDB\<close> of \<open>services/db\<close> creates with key path \<open>id\<close>; its operations \<open>getAll\<close>,
  \<open>get\<close>, \<open>add\<close>, \<open>put\<close> and \<open>delete\<close> are the browser's and not code of the repository. A
  store is the list of its records as \<open>getAll\<close> returns them, in ascending order of the key;
  \<open>add\<close> fails on a key that is present, \<open>put\<close> replaces the record of the key or adds one.
\<close>

type_synonym store = "shortcut list"

definition storeGet :: "string \<Rightarrow> store \<Rightarrow> shortcut option" where
  "storeGet i st = find (\<lambda>s. sid s = i) st"

definition storeAdd :: "shortcut \<Rightarrow> store \<Rightarrow> store option" where
  "storeAdd x st = (if sid x \<in> sid ` set st then None else Some (insort_key sid x st))"

definition storePut :: "shortcut \<Rightarrow> store \<Rightarrow> store" where
  "storePut x st =
     (if sid x \<in> sid ` set st then map (\<lambda>s. if sid s = sid x then x else s) st
      else insort_key sid x st)"

definition storeDelete :: "string \<Rightarrow> store \<Rightarrow> store" where
  "storeDelete i st = filter (\<lambda>s. sid s \<noteq> i) st"

section \<open>The shortcut service (services/shortcutService.js)\<close>

datatype error =
    ValidationFailed validationErrors
  | AliasExists string
  | ShortcutNotFound string
  | StoreFailed
  | RenameConflict string
  | InvalidFolderName string
  | FolderExists string

definition normalize :: "string \<Rightarrow> string" where
  \<comment> \<open>\<open>(x || '').trim().toLowerCase()\<close>\<close>
  "normalize x = toLowerCase (trim x)"

definition getShortcutByFullAlias :: "string \<Rightarrow> string \<Rightarrow> store \<Rightarrow> shortcut option" where
  "getShortcutByFullAlias fld als st =
     (let folderNorm = normalize fld; aliasNorm = normalize als
      in find (\<lambda>s. normalize (folder s) = folderNorm \<and> normalize (aliasName s) = aliasNorm) st)"

definition getShortcutsByFolder :: "string \<Rightarrow> store \<Rightarrow> shortcut list" where
  "getShortcutsByFolder fld st =
     (let folderNorm = normalize fld in filter (\<lambda>s. normalize (folder s) = folderNorm) st)"

definition aliasMessage :: "string \<Rightarrow> string \<Rightarrow> string" where
  \<comment> \<open>\<open>`${folder ? folder + '/' : ''}${alias}`\<close>\<close>
  "aliasMessage fld als = (if fld \<noteq> [] then fld @ ''/'' else []) @ als"

definition createShortcut ::
  "(string \<Rightarrow> string option) \<Rightarrow> nat \<Rightarrow> string \<Rightarrow> shortcutData \<Rightarrow> store
     \<Rightarrow> error + shortcut \<times> store" where
  \<comment> \<open>\<open>newId\<close> is the value of \<open>uuidv4()\<close>\<close>
  "createShortcut protocolOf now newId d st =
     (case validateShortcut protocolOf d of
        Inl errors \<Rightarrow> Inl (ValidationFailed errors)
      | Inr vtags \<Rightarrow>
          (case getShortcutByFullAlias (d_folder d) (d_alias d) st of
             Some existingShortcut \<Rightarrow> Inl (AliasExists (aliasMessage (d_folder d) (d_alias d)))
           | None \<Rightarrow>
               let shortcut = \<lparr> sid = newId, url = trim (d_url d), aliasName = trim (d_alias d),
                                folder = (if d_folder d \<noteq> [] then trim (d_folder d) else []),
                                tags = vtags, createdAt = now, updatedAt = now,
                                lastAccessed = None, lastAccessedAt = None,
                                accessCount = 0, isFavorite = False \<rparr>
               in (case storeAdd shortcut st of
                     None \<Rightarrow> Inl StoreFailed
                   | Some st' \<Rightarrow> Inr (shortcut, st'))))"

text \<open>
  The \<open>updates\<close> argument of \<open>updateShortcut\<close> is an object that the source spreads over the
  stored record (\<open>{ ...existing, ...updates }\<close>), so it can carry every field of a shortcut,
  the id too. A field is absent, or present with the value \<open>undefined\<close>, or present with a
  value (\<open>null\<close> is the empty string for a string and no time for a time). The merged record
  reads an \<open>undefined\<close> string as the empty string, an \<open>undefined\<close> count or creation time as 0
  (\<open>|| 0\<close>), an \<open>undefined\<close> access time as none and an \<open>undefined\<close> flag as false, as the
  readers of these fields do; with an \<open>undefined\<close> id, \<open>put\<close> finds no key and throws. The
  tags and the update time of the merged record are overwritten before it is stored. Keys
  that are not fields of a shortcut are stored and never read.
\<close>

datatype 'a jsField = Absent | Undefined | Given 'a

record updates =
  u_id :: "string jsField"
  u_url :: "string jsField"
  u_alias :: "string jsField"
  u_folder :: "string jsField"
  u_tags :: "tagsInput jsField"
  u_createdAt :: "nat jsField"
  u_updatedAt :: "nat jsField"
  u_lastAccessed :: "nat option jsField"
  u_lastAccessedAt :: "nat option jsField"
  u_accessCount :: "nat jsField"
  u_isFavorite :: "bool jsField"

definition noUpdates :: updates where
  "noUpdates = \<lparr> u_id = Absent, u_url = Absent, u_alias = Absent, u_folder = Absent,
                  u_tags = Absent, u_createdAt = Absent, u_updatedAt = Absent,
                  u_lastAccessed = Absent, u_lastAccessedAt = Absent, u_accessCount = Absent,
                  u_isFavorite = Absent \<rparr>"

definition merged :: "'a jsField \<Rightarrow> 'a \<Rightarrow> 'a \<Rightarrow> 'a" where
  \<comment> \<open>the field of \<open>{ ...existing, ...updates }\<close>: \<open>undef\<close> is how \<open>undefined\<close> reads,
      \<open>old\<close> the field of the stored record\<close>
  "merged u undef old = (case u of Absent \<Rightarrow> old | Undefined \<Rightarrow> undef | Given v \<Rightarrow> v)"

definition updateShortcut ::
  "(string \<Rightarrow> string option) \<Rightarrow> nat \<Rightarrow> string \<Rightarrow> updates \<Rightarrow> store
     \<Rightarrow> error + shortcut \<times> store" where
  "updateShortcut protocolOf now i u st =
     (case storeGet i st of
        None \<Rightarrow> Inl (ShortcutNotFound i)
      | Some existing \<Rightarrow>
          let updUrl = merged (u_url u) [] (url existing);
              updAlias = merged (u_alias u) [] (aliasName existing);
              updFolder = merged (u_folder u) [] (folder existing);
              updTags = merged (u_tags u) (TagsString []) (TagsArray (tags existing))
          in (case validateShortcut protocolOf
                     \<lparr> d_url = updUrl, d_alias = updAlias, d_folder = updFolder,
                       d_tags = updTags \<rparr> of
                Inl errors \<Rightarrow> Inl (ValidationFailed errors)
              | Inr vtags \<Rightarrow>
                  let conflict =
                        ((case u_alias u of Given a \<Rightarrow> a \<noteq> [] | _ \<Rightarrow> False)
                           \<or> (case u_folder u of Given f \<Rightarrow> True | _ \<Rightarrow> False))
                        \<and> (case getShortcutByFullAlias updFolder updAlias st of
                              Some existingAlias \<Rightarrow> sid existingAlias \<noteq> i
                            | None \<Rightarrow> False)
                  in if conflict then Inl (AliasExists (aliasMessage updFolder updAlias))
                     else if u_id u = Undefined then Inl StoreFailed
                     else
                       let updated =
                             \<lparr> sid = merged (u_id u) (sid existing) (sid existing),
                               url = updUrl, aliasName = updAlias, folder = updFolder,
                               tags = vtags,
                               createdAt = merged (u_createdAt u) 0 (createdAt existing),
                               updatedAt = now,
                               lastAccessed =
                                 merged (u_lastAccessed u) None (lastAccessed existing),
                               lastAccessedAt =
                                 merged (u_lastAccessedAt u) None (lastAccessedAt existing),
                               accessCount = merged (u_accessCount u) 0 (accessCount existing),
                               isFavorite =
                                 merged (u_isFavorite u) False (isFavorite existing) \<rparr>
                       in Inr (updated, storePut updated st)))"

text \<open>
  \<open>renameFolder\<close> walks the shortcuts of the old folder, as read before the loop; an
  exception leaves the loop with the store as the earlier iterations wrote it, so the
  result carries the store beside the outcome.
\<close>

fun renameLoop ::
  "(string \<Rightarrow> string option) \<Rightarrow> nat \<Rightarrow> string \<Rightarrow> shortcut list \<Rightarrow> store \<Rightarrow> nat
     \<Rightarrow> (error + nat) \<times> store" where
  "renameLoop protocolOf now newName [] st updated = (Inr updated, st)"
| "renameLoop protocolOf now newName (shortcut # rest) st updated =
     (if (case getShortcutByFullAlias newName (aliasName shortcut) st of
            Some existingAlias \<Rightarrow> sid existingAlias \<noteq> sid shortcut
          | None \<Rightarrow> False)
      then (Inl (RenameConflict (aliasName shortcut)), st)
      else (case updateShortcut protocolOf now (sid shortcut)
                   (noUpdates \<lparr> u_folder := Given newName \<rparr>) st of
              Inl e \<Rightarrow> (Inl e, st)
            | Inr (x, st') \<Rightarrow> renameLoop protocolOf now newName rest st' (updated + 1)))"

definition renameFolder ::
  "(string \<Rightarrow> string option) \<Rightarrow> nat \<Rightarrow> string \<Rightarrow> string \<Rightarrow> store
     \<Rightarrow> (error + nat) \<times> store" where
  "renameFolder protocolOf now oldName newName st =
     (if caseInsensitiveEqual oldName newName then (Inr 0, st)
      else renameLoop protocolOf now newName (getShortcutsByFolder oldName st) st 0)"

text \<open>
  \<open>searchShortcuts\<close> sorts every shortcut of the store into one of four arrays, or none, and
  returns the arrays one after the other.
\<close>

fun searchLoop ::
  "string \<Rightarrow> shortcut list
     \<Rightarrow> shortcut list \<times> shortcut list \<times> shortcut list \<times> shortcut list
     \<Rightarrow> shortcut list \<times> shortcut list \<times> shortcut list \<times> shortcut list" where
  "searchLoop q [] acc = acc"
| "searchLoop q (shortcut # rest) (exact, partial, tagMatches, urlMatches) =
     (let fullAlias = toLowerCase (folder shortcut) @ ''/'' @ toLowerCase (aliasName shortcut);
          aliasPart = toLowerCase (aliasName shortcut);
          folderPart = toLowerCase (folder shortcut);
          urlLower = toLowerCase (url shortcut);
          tagsLower = map toLowerCase (tags shortcut)
      in if aliasPart = q \<or> fullAlias = q
           then searchLoop q rest (exact @ [shortcut], partial, tagMatches, urlMatches)
         else if includesStr aliasPart q \<or> includesStr fullAlias q \<or> includesStr folderPart q
           then searchLoop q rest (exact, partial @ [shortcut], tagMatches, urlMatches)
         else if list_ex (\<lambda>t. includesStr t q) tagsLower
           then searchLoop q rest (exact, partial, tagMatches @ [shortcut], urlMatches)
         else if includesStr urlLower q
           then searchLoop q rest (exact, partial, tagMatches, urlMatches @ [shortcut])
         else searchLoop q rest (exact, partial, tagMatches, urlMatches))"

definition searchShortcuts :: "string \<Rightarrow> store \<Rightarrow> shortcut list" where
  "searchShortcuts query st =
     (if query = [] \<or> trim query = [] then []
      else let q = toLowerCase (trim query) in
        (case searchLoop q st ([], [], [], []) of
           (exact, partial, tagMatches, urlMatches) \<Rightarrow>
             exact @ partial @ tagMatches @ urlMatches))"

text \<open>
  \<open>Array.prototype.sort\<close> with a comparator is a stable sort; it is modelled by the stable
  insertion sort, which is what every stable sort returns for a comparator that is a total
  preorder. \<open>slice(0, n)\<close> counts a negative \<open>n\<close> from the end.
\<close>

fun insertBy :: "('a \<Rightarrow> 'a \<Rightarrow> int) \<Rightarrow> 'a \<Rightarrow> 'a list \<Rightarrow> 'a list" where
  "insertBy cmp x [] = [x]"
| "insertBy cmp x (y # ys) = (if cmp x y \<le> 0 then x # y # ys else y # insertBy cmp x ys)"

definition sortBy :: "('a \<Rightarrow> 'a \<Rightarrow> int) \<Rightarrow> 'a list \<Rightarrow> 'a list" where
  "sortBy cmp xs = foldr (insertBy cmp) xs []"

definition sliceFrom0 :: "int \<Rightarrow> 'a list \<Rightarrow> 'a list" where
  "sliceFrom0 n xs = (if n < 0 then take (nat (int (length xs) + n)) xs else take (nat n) xs)"

definition getFrequentShortcuts :: "int \<Rightarrow> store \<Rightarrow> shortcut list" where
  \<comment> \<open>the caller's \<open>limit\<close>; it is 10 where the caller gives none\<close>
  "getFrequentShortcuts limit st =
     sliceFrom0 limit (sortBy (\<lambda>a b. int (accessCount b) - int (accessCount a)) st)"

definition deleteShortcut :: "string \<Rightarrow> store \<Rightarrow> store" where
  "deleteShortcut i st = storeDelete i st"

section \<open>The folder service (services/folderService.js)\<close>

text \<open>
  Modelled from the spec: the record store of the folders, the browser's IndexedDB object
  store that \<open>initDB\<close> of \<open>services/db\<close> creates with key path \<open>name\<close>; its operations are the
  browser's. \<open>get\<close> finds the record whose name is the key, character for character; \<open>add\<close>
  fails on a name that is present.
\<close>

record folderRecord =
  f_name :: string
  f_createdAt :: nat

type_synonym folders = "folderRecord list"

definition folderGet :: "string \<Rightarrow> folders \<Rightarrow> folderRecord option" where
  "folderGet n fs = find (\<lambda>f. f_name f = n) fs"

definition folderAdd :: "folderRecord \<Rightarrow> folders \<Rightarrow> folders option" where
  "folderAdd x fs =
     (if f_name x \<in> f_name ` set fs then None else Some (insort_key f_name x fs))"

definition folderDelete :: "string \<Rightarrow> folders \<Rightarrow> folders" where
  "folderDelete n fs = filter (\<lambda>f. f_name f \<noteq> n) fs"

definition getFolderByName :: "string \<Rightarrow> folders \<Rightarrow> folderRecord option" where
  "getFolderByName n fs = (if n = [] then None else folderGet (trim n) fs)"

definition folderService_renameFolder ::
  "(string \<Rightarrow> string option) \<Rightarrow> nat \<Rightarrow> string \<Rightarrow> string \<Rightarrow> folders \<times> store
     \<Rightarrow> (error + folderRecord option) \<times> folders \<times> store" where
  \<comment> \<open>\<open>renameFolder\<close> of the folder service; \<open>renameFolder\<close> of the shortcut service is its
      \<open>renameShortcutsFolder\<close>. The result carries both stores as the call leaves them.\<close>
  "folderService_renameFolder protocolOf now oldName newName state =
     (case state of (fs, st) \<Rightarrow>
        (case validateFolderName newName of
           Invalid e \<Rightarrow> (Inl (InvalidFolderName e), fs, st)
         | Valid \<Rightarrow>
             let normalizedOldName = trim oldName; normalizedNewName = trim newName in
             if caseInsensitiveEqual normalizedOldName normalizedNewName
               then (Inr (getFolderByName normalizedOldName fs), fs, st)
             else (case getFolderByName normalizedNewName fs of
                     Some existingFolder \<Rightarrow> (Inl (FolderExists normalizedNewName), fs, st)
                   | None \<Rightarrow>
                       (case renameFolder protocolOf now normalizedOldName normalizedNewName st of
                          (Inl e, st') \<Rightarrow> (Inl e, fs, st')
                        | (Inr n, st') \<Rightarrow>
                            let fs1 = folderDelete normalizedOldName fs;
                                newFolder = \<lparr> f_name = normalizedNewName, f_createdAt = now \<rparr>
                            in (case folderAdd newFolder fs1 of
                                  None \<Rightarrow> (Inl StoreFailed, fs1, st')
                                | Some fs2 \<Rightarrow> (Inr (Some newFolder), fs2, st'))))))"

section \<open>The query controller (hooks/useSearchData.js)\<close>

text \<open>
  The result cache is a plain object: its own properties are a list of keys and values in
  the order of their creation, and a key that is not an own property is looked up on
  \<open>Object.prototype\<close>, which has two properties with lower-case names. \<open>Object.keys\<close>
  lists the keys that are array indices first, in ascending numeric order, and the other
  keys in the order of their creation.
\<close>

type_synonym cache = "(string \<times> shortcut list) list"

datatype cached = Results "shortcut list" | Inherited

definition inheritedProperty :: "string \<Rightarrow> bool" where
  "inheritedProperty k = (k = ''constructor'' \<or> k = ''__proto__'')"

definition cacheLookup :: "cache \<Rightarrow> string \<Rightarrow> cached option" where
  \<comment> \<open>\<open>resultsCache.current[k]\<close> where it is truthy: an array is, the empty one too\<close>
  "cacheLookup c k =
     (case map_of c k of
        Some r \<Rightarrow> Some (Results r)
      | None \<Rightarrow> if inheritedProperty k then Some Inherited else None)"

definition parseIndex :: "string \<Rightarrow> nat" where
  "parseIndex k = foldl (\<lambda>n c. 10 * n + (code c - 48)) 0 k"

definition isArrayIndex :: "string \<Rightarrow> bool" where
  \<comment> \<open>the canonical decimal form of an integer from 0 to \<open>2^32 - 2\<close>\<close>
  "isArrayIndex k =
     (k \<noteq> [] \<and> list_all isDigit k \<and> (k = ''0'' \<or> hd k \<noteq> CHR ''0'')
      \<and> parseIndex k < 4294967295)"

definition objectKeys :: "cache \<Rightarrow> string list" where
  "objectKeys c =
     sort_key parseIndex (filter isArrayIndex (map fst c))
       @ filter (\<lambda>k. \<not> isArrayIndex k) (map fst c)"

definition setProperty :: "string \<Rightarrow> shortcut list \<Rightarrow> cache \<Rightarrow> cache" where
  "setProperty k v c =
     (if k \<in> fst ` set c then map (\<lambda>p. if fst p = k then (k, v) else p) c else c @ [(k, v)])"

definition deleteProperty :: "string \<Rightarrow> cache \<Rightarrow> cache" where
  "deleteProperty k c = filter (\<lambda>p. fst p \<noteq> k) c"

definition performSearch :: "string \<Rightarrow> cache \<Rightarrow> store \<Rightarrow> cached \<times> cache" where
  \<comment> \<open>the value returned (and passed to \<open>setSearchResults\<close>), and the cache afterwards\<close>
  "performSearch query c st =
     (if query = [] \<or> length (trim query) = 0 then (Results [], c)
      else let normalizedQuery = toLowerCase (trim query) in
        (case cacheLookup c normalizedQuery of
           Some cachedValue \<Rightarrow> (cachedValue, c)
         | None \<Rightarrow>
             let results = searchShortcuts query st;
                 c1 = setProperty normalizedQuery results c;
                 cacheKeys = objectKeys c1;
                 c2 = (if length cacheKeys > 50 then deleteProperty (hd cacheKeys) c1 else c1)
             in (Results results, c2)))"

definition clearCache :: "cache \<Rightarrow> cache" where
  "clearCache c = []"

section \<open>The debounced search (useDebouncedSearch, in hooks/useSearchData.js)\<close>

text \<open>
  The hook filters and sorts the items it is given, with its default search and sort
  functions, the search fields \<open>alias\<close>, \<open>url\<close>, \<open>tags\<close>, \<open>folder\<close> and no case sensitivity, as
  \<open>useShortcutSearch\<close> sets it up. \<open>localeCompare\<close> is the platform's string comparison and a
  parameter of the model.
\<close>

fun joinWith :: "string \<Rightarrow> string list \<Rightarrow> string" where
  "joinWith sep [] = []"
| "joinWith sep [x] = x"
| "joinWith sep (x # y # zs) = x @ sep @ joinWith sep (y # zs)"

definition folderPartOf :: "string \<Rightarrow> string" where
  \<comment> \<open>the first element of \<open>searchText.split('/', 2)\<close>\<close>
  "folderPartOf searchText = (case splitOn CHR ''/'' searchText of [] \<Rightarrow> [] | p # ps \<Rightarrow> p)"

definition aliasPartOf :: "string \<Rightarrow> string" where
  \<comment> \<open>the second element of \<open>searchText.split('/', 2)\<close>; empty where there is none\<close>
  "aliasPartOf searchText =
     (case splitOn CHR ''/'' searchText of p # a # ps \<Rightarrow> a | _ \<Rightarrow> [])"

definition defaultSearchFunction :: "shortcut \<Rightarrow> string \<Rightarrow> bool" where
  "defaultSearchFunction item query =
     (if trim query = [] then True
      else let searchText = toLowerCase query in
        if includesStr searchText ''/'' then
          let folderPart = folderPartOf searchText; aliasPart = aliasPartOf searchText;
              itemFolder = toLowerCase (folder item); itemAlias = toLowerCase (aliasName item)
          in if aliasPart = [] then includesStr itemFolder folderPart
             else includesStr itemFolder folderPart \<and> includesStr itemAlias aliasPart
        else (aliasName item \<noteq> [] \<and> includesStr (toLowerCase (aliasName item)) searchText)
           \<or> (url item \<noteq> [] \<and> includesStr (toLowerCase (url item)) searchText)
           \<or> includesStr (toLowerCase (joinWith '' '' (tags item))) searchText
           \<or> (folder item \<noteq> [] \<and> includesStr (toLowerCase (folder item)) searchText))"

definition fieldScore :: "string \<Rightarrow> string \<Rightarrow> int" where
  "fieldScore searchText v =
     (let searchableValue = toLowerCase v in
      if searchableValue = searchText then 100
      else if startsWith searchableValue searchText then 50
      else if includesStr searchableValue searchText then 25 else 0)"

definition getMatchScore :: "string \<Rightarrow> shortcut \<Rightarrow> int" where
  "getMatchScore searchText item =
     (if includesStr searchText ''/'' then
        let folderPart = folderPartOf searchText; aliasPart = aliasPartOf searchText;
            itemFolder = toLowerCase (folder item); itemAlias = toLowerCase (aliasName item)
        in (if itemFolder = folderPart then 100
            else if includesStr itemFolder folderPart then 50 else 0)
         + (if aliasPart \<noteq> [] then
              (if itemAlias = aliasPart then 100
               else if startsWith itemAlias aliasPart then 75
               else if includesStr itemAlias aliasPart then 25 else 0)
            else 0)
      else fieldScore searchText (aliasName item) + fieldScore searchText (url item)
         + fieldScore searchText (joinWith '' '' (tags item))
         + fieldScore searchText (folder item))"

definition defaultSortFunction ::
  "(string \<Rightarrow> string \<Rightarrow> int) \<Rightarrow> string \<Rightarrow> shortcut \<Rightarrow> shortcut \<Rightarrow> int" where
  "defaultSortFunction localeCompare query a b =
     (if trim query = [] then 0
      else let searchText = toLowerCase query;
               scoreA = getMatchScore searchText a; scoreB = getMatchScore searchText b
           in if scoreA \<noteq> scoreB then scoreB - scoreA
              else localeCompare (toLowerCase (aliasName a)) (toLowerCase (aliasName b)))"

definition filteredItems ::
  "(string \<Rightarrow> string \<Rightarrow> int) \<Rightarrow> shortcut list \<Rightarrow> string \<Rightarrow> shortcut list" where
  "filteredItems localeCompare items debouncedQuery =
     (if trim debouncedQuery = [] then items
      else sortBy (defaultSortFunction localeCompare debouncedQuery)
             (filter (\<lambda>item. defaultSearchFunction item debouncedQuery) items))"

section \<open>Reference definitions and example data\<close>

definition specAliasChar :: "char \<Rightarrow> bool" where
  \<comment> \<open>the class \<open>[A-Za-z0-9-]\<close> of the specification's \<open>validateAlias\<close>\<close>
  "specAliasChar c = (isUpper c \<or> isLower c \<or> isDigit c \<or> c = CHR ''-'')"

definition tags21 :: "string list" where
  "tags21 = [''a'', ''b'', ''c'', ''d'', ''e'', ''f'', ''g'', ''h'', ''i'', ''j'', ''k'',
             ''l'', ''m'', ''n'', ''o'', ''p'', ''q'', ''r'', ''s'', ''t'', ''u'']"

definition identityOf :: "shortcut \<Rightarrow> string \<times> string" where
  \<comment> \<open>the pair the service compares: the normalised folder and the normalised alias\<close>
  "identityOf s = (normalize (folder s), normalize (aliasName s))"

definition keyOf :: "string \<Rightarrow> string \<Rightarrow> string" where
  \<comment> \<open>the specification's composite key: \<open>normalize(folder) + "/" + normalize(alias)\<close>, or
      \<open>normalize(alias)\<close> when the folder is empty\<close>
  "keyOf fld als =
     (if normalize fld = [] then normalize als else normalize fld @ ''/'' @ normalize als)"

definition compositeKey :: "shortcut \<Rightarrow> string" where
  "compositeKey s = keyOf (folder s) (aliasName s)"

definition storedAliasesValid :: "store \<Rightarrow> bool" where
  \<comment> \<open>every stored alias is one that \<open>validateAlias\<close> accepts\<close>
  "storedAliasesValid st = list_all (\<lambda>s. validateAlias (aliasName s) = Valid) st"

text \<open>Sequences of mutations: each operation with the time of its call; a creation with
  the identifier \<open>uuidv4()\<close> returns.\<close>

datatype operation =
    Create nat string shortcutData
  | Update nat string updates
  | Rename nat string string

definition step :: "(string \<Rightarrow> string option) \<Rightarrow> operation \<Rightarrow> store \<Rightarrow> store" where
  \<comment> \<open>the store after an operation, whether it succeeded or threw\<close>
  "step protocolOf op st =
     (case op of
        Create now newId d \<Rightarrow>
          (case createShortcut protocolOf now newId d st of Inl e \<Rightarrow> st | Inr (x, st') \<Rightarrow> st')
      | Update now i u \<Rightarrow>
          (case updateShortcut protocolOf now i u st of Inl e \<Rightarrow> st | Inr (x, st') \<Rightarrow> st')
      | Rename now oldName newName \<Rightarrow> snd (renameFolder protocolOf now oldName newName st))"

fun states :: "(string \<Rightarrow> string option) \<Rightarrow> operation list \<Rightarrow> store \<Rightarrow> store list" where
  \<comment> \<open>the store before the first operation and after each one\<close>
  "states protocolOf [] st = [st]"
| "states protocolOf (op # ops) st = st # states protocolOf ops (step protocolOf op st)"

text \<open>A stand-in for the URL parser in the examples: it knows the two schemes that
  \<open>validateUrl\<close> accepts and rejects every other string.\<close>

definition schemeOf :: "string \<Rightarrow> string option" where
  "schemeOf s = (if startsWith s ''https://'' then Some ''https:''
                 else if startsWith s ''http://'' then Some ''http:'' else None)"

definition mkShortcut :: "string \<Rightarrow> string \<Rightarrow> string \<Rightarrow> shortcut" where
  \<comment> \<open>a stored shortcut with the given id, folder and alias, never accessed\<close>
  "mkShortcut i fld als =
     \<lparr> sid = i, url = ''https://example.com/'' @ als, aliasName = als, folder = fld,
       tags = [], createdAt = 0, updatedAt = 0, lastAccessed = None, lastAccessedAt = None,
       accessCount = 0, isFavorite = False \<rparr>"

definition renameStore :: store where
  \<comment> \<open>\<open>a/x\<close>, \<open>a/y\<close> and \<open>b/y\<close>\<close>
  "renameStore = [mkShortcut ''1'' ''a'' ''x'', mkShortcut ''2'' ''a'' ''y'',
                  mkShortcut ''3'' ''b'' ''y'']"

definition workMeetStore :: store where
  \<comment> \<open>the store that holds \<open>work/meet\<close> only\<close>
  "workMeetStore = [mkShortcut ''id1'' ''work'' ''meet'']"

definition draftOf :: "string \<Rightarrow> string \<Rightarrow> string \<Rightarrow> shortcutData" where
  "draftOf u fld als = \<lparr> d_url = u, d_alias = als, d_folder = fld, d_tags = TagsString [] \<rparr>"

definition uniqueStore :: "store \<Rightarrow> bool" where
  \<comment> \<open>one record per id, and no two records with the same normalised folder and alias\<close>
  "uniqueStore st = (distinct (map sid st) \<and> distinct (map identityOf st))"

definition plainUpdate :: "string \<Rightarrow> updates \<Rightarrow> bool" where
  \<comment> \<open>an update of the shortcut \<open>i\<close> that carries no other id and no \<open>undefined\<close> folder\<close>
  "plainUpdate i u = ((u_id u = Absent \<or> u_id u = Given i) \<and> u_folder u \<noteq> Undefined)"

definition plainOp :: "operation \<Rightarrow> bool" where
  "plainOp op = (case op of Update now i u \<Rightarrow> plainUpdate i u | _ \<Rightarrow> True)"

definition foreignIdStore :: store where
  \<comment> \<open>\<open>work/meet\<close> and \<open>other\<close>\<close>
  "foreignIdStore = [mkShortcut ''id1'' ''work'' ''meet'', mkShortcut ''id2'' [] ''other'']"

definition exampleOps :: "operation list" where
  "exampleOps =
     [Create 1 ''id2'' (draftOf ''https://meet.com'' [] ''meet''),
      Create 2 ''id3'' (draftOf ''https://x.com'' ''work'' ''meet''),
      Update 3 ''id2'' (noUpdates \<lparr> u_folder := Given ''work'' \<rparr>),
      Rename 4 ''work'' ''team'']"

text \<open>The reference ranking of C4, from the specification's words.\<close>

definition fullAliasOf :: "shortcut \<Rightarrow> string" where
  \<comment> \<open>the full alias: \<open>folder + "/" + alias\<close>, or the alias alone when the folder is empty\<close>
  "fullAliasOf s = (if folder s = [] then aliasName s else folder s @ ''/'' @ aliasName s)"

definition tierOf :: "string \<Rightarrow> shortcut \<Rightarrow> nat" where
  \<comment> \<open>the first of the tiers 1 to 4 that the shortcut matches, or 0\<close>
  "tierOf q s =
     (if toLowerCase (aliasName s) = q \<or> toLowerCase (fullAliasOf s) = q then 1
      else if includesStr (toLowerCase (aliasName s)) q \<or> includesStr (toLowerCase (fullAliasOf s)) q
              \<or> includesStr (toLowerCase (folder s)) q then 2
      else if list_ex (\<lambda>t. includesStr (toLowerCase t) q) (tags s) then 3
      else if includesStr (toLowerCase (url s)) q then 4
      else 0)"

definition referenceSearch :: "string \<Rightarrow> shortcut list \<Rightarrow> shortcut list" where
  \<comment> \<open>the tiers in order, each sorted by the lower-cased full alias\<close>
  "referenceSearch query cands =
     concat (map (\<lambda>k. sort_key (\<lambda>s. toLowerCase (fullAliasOf s))
                          (filter (\<lambda>s. tierOf (toLowerCase (trim query)) s = k) cands))
                 [1, 2, 3, 4])"

definition meetStore :: store where
  \<comment> \<open>\<open>work/meet\<close> and \<open>meet\<close>, in the order of their ids\<close>
  "meetStore = [mkShortcut ''id1'' ''work'' ''meet'', mkShortcut ''id2'' [] ''meet'']"

text \<open>The reference order of C9, from the specification's words: the higher access count
  first, then the more recent last access (a shortcut never accessed is the oldest), then
  the full alias ascending.\<close>

definition compareStrings :: "string \<Rightarrow> string \<Rightarrow> int" where
  "compareStrings x y = (if x < y then - 1 else if x = y then 0 else 1)"

definition recency :: "shortcut \<Rightarrow> nat" where
  "recency s = (case lastAccessedAt s of None \<Rightarrow> 0 | Some t \<Rightarrow> Suc t)"

definition frequentOrder :: "shortcut \<Rightarrow> shortcut \<Rightarrow> int" where
  "frequentOrder a b =
     (if accessCount a \<noteq> accessCount b then int (accessCount b) - int (accessCount a)
      else if recency a \<noteq> recency b then int (recency b) - int (recency a)
      else compareStrings (fullAliasOf a) (fullAliasOf b))"

definition topFrequent :: "nat \<Rightarrow> shortcut list \<Rightarrow> shortcut list" where
  "topFrequent n cands = take n (sortBy frequentOrder cands)"

definition frequentStore :: store where
  \<comment> \<open>two shortcuts used three times each; the second one more recently\<close>
  "frequentStore =
     [(mkShortcut ''id1'' [] ''old'') \<lparr> accessCount := 3, lastAccessed := Some 100,
                                        lastAccessedAt := Some 100 \<rparr>,
      (mkShortcut ''id2'' [] ''new'') \<lparr> accessCount := 3, lastAccessed := Some 200,
                                        lastAccessedAt := Some 200 \<rparr>,
      (mkShortcut ''id3'' [] ''top'') \<lparr> accessCount := 9, lastAccessed := Some 50,
                                        lastAccessedAt := Some 50 \<rparr>]"

definition createdMeetStore :: store where
  \<comment> \<open>the empty store after the creation of \<open>meet\<close>\<close>
  "createdMeetStore = step schemeOf (Create 1 ''id1'' (draftOf ''https://meet.com'' [] ''meet'')) []"

definition caseFolders :: folders where
  \<comment> \<open>the folders \<open>Work\<close> and \<open>a\<close>\<close>
  "caseFolders = [\<lparr> f_name = ''Work'', f_createdAt = 0 \<rparr>, \<lparr> f_name = ''a'', f_createdAt = 0 \<rparr>]"

definition caseStore :: store where
  \<comment> \<open>\<open>Work/y\<close> and \<open>a/x\<close>\<close>
  "caseStore = [mkShortcut ''1'' ''Work'' ''y'', mkShortcut ''2'' ''a'' ''x'']"

text \<open>The folder listing of C5, from the specification's words: the shortcuts whose folder
  contains the text before the first \<open>/\<close> of the trimmed, lower-cased query, by alias
  ascending.\<close>

definition referenceListing :: "string \<Rightarrow> shortcut list \<Rightarrow> shortcut list" where
  "referenceListing query cands =
     sort_key (\<lambda>s. toLowerCase (aliasName s))
       (filter (\<lambda>s. includesStr (toLowerCase (folder s))
                        (folderPartOf (toLowerCase (trim query)))) cands)"

definition exactFolder :: "string \<Rightarrow> shortcut \<Rightarrow> bool" where
  \<comment> \<open>the folder of the shortcut is the folder part of the query, up to case\<close>
  "exactFolder query s = (toLowerCase (folder s) = folderPartOf (toLowerCase query))"

definition listingItems :: "shortcut list" where
  \<comment> \<open>\<open>workshop/a\<close>, \<open>work/b\<close> and \<open>home/c\<close>\<close>
  "listingItems = [mkShortcut ''1'' ''workshop'' ''a'', mkShortcut ''2'' ''work'' ''b'',
                   mkShortcut ''3'' ''home'' ''c'']"

section \<open>Properties of the validators\<close>

lemma aliasChar_iff: "aliasChar c \<longleftrightarrow> specAliasChar c \<and> \<not> isUpper c"
  by (auto simp: aliasChar_def specAliasChar_def isUpper_def isLower_def isDigit_def code_def)

lemma list_all_aliasChar_iff:
  "list_all aliasChar s \<longleftrightarrow> list_all specAliasChar s \<and> \<not> list_ex isUpper s"
  by (induction s) (auto simp: aliasChar_iff)

lemma validateAlias_Valid_iff:
  "validateAlias a = Valid \<longleftrightarrow>
     trim a \<noteq> [] \<and> length (trim a) \<le> 50 \<and> list_all aliasChar (trim a)"
  by (auto simp: validateAlias_def testPlus_def Let_def trim_def)

text \<open>
  C7 as stated fails: an alias over \<open>[A-Za-z0-9-]\<close> of one to fifty characters that has an
  upper-case letter is rejected; \<open>Meet\<close> is such an alias.
\<close>

theorem validateAlias_uppercase_counterexample:
  "list_all specAliasChar (trim ''Meet'') \<and> 1 \<le> length (trim ''Meet'')
   \<and> length (trim ''Meet'') \<le> 50
   \<and> validateAlias ''Meet''
       = Invalid ''Alias must be lowercase, no spaces, only letters, numbers, and hyphens (-)''"
  by (simp add: validateAlias_def testPlus_def trim_def isWhiteSpace_def code_def
      specAliasChar_def aliasChar_def isUpper_def isLower_def isDigit_def)

text \<open>
  C7 (amended): \<open>validateAlias\<close> succeeds exactly when its trimmed input has between 1 and
  50 characters, all of them in \<open>[A-Za-z0-9-]\<close>, and none of them an upper-case letter;
  that is, all of them in \<open>[a-z0-9-]\<close>.
\<close>

theorem validateAlias_lowercase_only:
  "validateAlias a = Valid \<longleftrightarrow>
     1 \<le> length (trim a) \<and> length (trim a) \<le> 50
     \<and> list_all specAliasChar (trim a) \<and> \<not> list_ex isUpper (trim a)"
  by (auto simp: validateAlias_Valid_iff list_all_aliasChar_iff Suc_le_eq)

theorem validateAlias_lowercase_only_witness:
  "validateAlias '' my-alias-2 '' = Valid \<and> validateAlias ''My-alias-2'' \<noteq> Valid"
  using validateAlias_lowercase_only [of "'' my-alias-2 ''"]
    validateAlias_lowercase_only [of "''My-alias-2''"]
  by (simp add: trim_def isWhiteSpace_def code_def specAliasChar_def isUpper_def isLower_def
      isDigit_def)

text \<open>
  C8: the claim allows up to 50 tags; the code rejects more than 20. The 21 tags
  \<open>a\<close>, ..., \<open>u\<close> are each valid, and the array of them is rejected as too many.
\<close>

theorem validateTags_rejects_21_tags:
  "firstInvalidTag tags21 = None \<and> length (tagEntries (TagsArray tags21)) = 21
   \<and> validateTags (TagsArray tags21) = TagsInvalid ''Maximum 20 tags allowed''"
  by (simp add: tags21_def validateTags_def tagEntries_def validateTag_def testPlus_def
      trim_def isWhiteSpace_def code_def toLowerCase_def lowerChar_def aliasChar_def
      isUpper_def isLower_def isDigit_def)

lemma trim_Nil_iff: "trim s = [] \<longleftrightarrow> (\<forall>c\<in>set s. isWhiteSpace c)"
proof
  assume "trim s = []"
  then have all: "\<forall>c\<in>set (dropWhile isWhiteSpace s). isWhiteSpace c"
    by (simp add: trim_def dropWhile_eq_Nil_conv)
  have "dropWhile isWhiteSpace s = []"
  proof (rule ccontr)
    assume ne: "dropWhile isWhiteSpace s \<noteq> []"
    then have "\<not> isWhiteSpace (hd (dropWhile isWhiteSpace s))" by (rule hd_dropWhile)
    moreover have "hd (dropWhile isWhiteSpace s) \<in> set (dropWhile isWhiteSpace s)"
      using ne by simp
    ultimately show False using all by blast
  qed
  then show "\<forall>c\<in>set s. isWhiteSpace c" by (simp add: dropWhile_eq_Nil_conv)
next
  assume "\<forall>c\<in>set s. isWhiteSpace c"
  then show "trim s = []" by (auto simp: trim_def dest: set_dropWhileD)
qed

lemma trim_Nil [simp]: "trim [] = []"
  by (simp add: trim_def)

lemma splitOn_absent: "sep \<notin> set s \<Longrightarrow> splitOn sep s = [s]"
  by (induction s) auto

lemma tagEntries_blank: "trim s = [] \<Longrightarrow> tagEntries (TagsString s) = []"
proof -
  assume blank: "trim s = []"
  then have "CHR '','' \<notin> set s"
    by (auto simp: trim_Nil_iff isWhiteSpace_def code_def)
  then show ?thesis using blank by (simp add: tagEntries_def splitOn_absent)
qed

lemma validateTags_count_limit:
  assumes "firstInvalidTag (tagEntries t) = None"
  shows "(\<exists>ts. validateTags t = TagsValid ts) \<longleftrightarrow> length (tagEntries t) \<le> 20"
proof (cases t)
  case (TagsString s)
  show ?thesis
    using assms tagEntries_blank [of s] by (auto simp: validateTags_def Let_def TagsString)
next
  case (TagsArray ts)
  show ?thesis
    using assms by (auto simp: validateTags_def Let_def TagsArray)
qed

lemma dropWhile_hd_not: "dropWhile P xs = [] \<or> \<not> P (hd (dropWhile P xs))"
  by (induction xs) auto

lemma dropWhile_last: "dropWhile P xs \<noteq> [] \<Longrightarrow> last (dropWhile P xs) = last xs"
  by (induction xs) (auto split: if_splits)

lemma dropWhile_id: "xs = [] \<or> \<not> P (hd xs) \<Longrightarrow> dropWhile P xs = xs"
  by (cases xs) auto

lemma trim_trim [simp]: "trim (trim s) = trim s"
proof -
  define d where "d = dropWhile isWhiteSpace s"
  define r where "r = dropWhile isWhiteSpace (rev d)"
  have t: "trim s = rev r" by (simp add: trim_def d_def r_def)
  have d_hd: "d = [] \<or> \<not> isWhiteSpace (hd d)" unfolding d_def by (rule dropWhile_hd_not)
  have r_hd: "r = [] \<or> \<not> isWhiteSpace (hd r)" unfolding r_def by (rule dropWhile_hd_not)
  have "rev r = [] \<or> \<not> isWhiteSpace (hd (rev r))"
  proof (cases "r = []")
    case True then show ?thesis by simp
  next
    case False
    then have "last r = last (rev d)" unfolding r_def by (rule dropWhile_last)
    moreover have "d \<noteq> []" using False r_def by auto
    ultimately have "hd (rev r) = hd d" using False by (simp add: hd_rev last_rev)
    then show ?thesis using d_hd \<open>d \<noteq> []\<close> by simp
  qed
  then have 1: "dropWhile isWhiteSpace (rev r) = rev r" by (rule dropWhile_id)
  have 2: "dropWhile isWhiteSpace r = r" using r_hd by (rule dropWhile_id)
  show ?thesis by (simp add: t) (simp add: trim_def 1 2)
qed

lemma normalize_trim [simp]: "normalize (trim s) = normalize s"
  by (simp add: normalize_def)

lemma lowerChar_aliasChar: "aliasChar c \<Longrightarrow> lowerChar c = c"
  by (auto simp: aliasChar_def lowerChar_def isUpper_def isLower_def isDigit_def code_def)

lemma toLowerCase_aliasChars: "list_all aliasChar t \<Longrightarrow> toLowerCase t = t"
  by (induction t) (auto simp: toLowerCase_def lowerChar_aliasChar)

lemma slash_not_aliasChar: "\<not> aliasChar CHR ''/''"
  by (simp add: aliasChar_def isLower_def isDigit_def code_def)

lemma validAlias_no_slash:
  assumes "validateAlias a = Valid" shows "CHR ''/'' \<notin> set (normalize a)"
proof -
  from assms have all: "list_all aliasChar (trim a)" by (simp add: validateAlias_Valid_iff)
  then have "normalize a = trim a" by (simp add: normalize_def toLowerCase_aliasChars)
  then show ?thesis using all slash_not_aliasChar by (auto simp: list_all_iff)
qed

lemma split_first_sep:
  "x \<notin> set xs \<Longrightarrow> x \<notin> set xs' \<Longrightarrow> xs @ x # ys = xs' @ x # ys' \<Longrightarrow> xs = xs' \<and> ys = ys'"
proof (induction xs arbitrary: xs')
  case Nil
  then show ?case by (cases xs') auto
next
  case (Cons a xs)
  then show ?case by (cases xs') auto
qed

lemma split_last_slash:
  assumes "CHR ''/'' \<notin> set a1" "CHR ''/'' \<notin> set a2"
    and "f1 @ CHR ''/'' # a1 = f2 @ CHR ''/'' # a2"
  shows "f1 = f2 \<and> a1 = a2"
proof -
  from assms(3) have "rev a1 @ CHR ''/'' # rev f1 = rev a2 @ CHR ''/'' # rev f2"
    by (metis rev.simps(2) rev_append append_assoc append_Cons append_Nil)
  moreover have "CHR ''/'' \<notin> set (rev a1)" "CHR ''/'' \<notin> set (rev a2)"
    using assms(1,2) by simp_all
  ultimately have "rev a1 = rev a2 \<and> rev f1 = rev f2"
    by (metis split_first_sep)
  then show ?thesis by simp
qed

lemma keyOf_eq_iff:
  assumes "CHR ''/'' \<notin> set (normalize a1)" "CHR ''/'' \<notin> set (normalize a2)"
  shows "keyOf f1 a1 = keyOf f2 a2 \<longleftrightarrow> normalize f1 = normalize f2 \<and> normalize a1 = normalize a2"
proof
  assume eq: "keyOf f1 a1 = keyOf f2 a2"
  show "normalize f1 = normalize f2 \<and> normalize a1 = normalize a2"
  proof (cases "normalize f1 = []"; cases "normalize f2 = []")
    assume "normalize f1 = []" "normalize f2 = []"
    with eq show ?thesis by (simp add: keyOf_def)
  next
    assume "normalize f1 = []" "normalize f2 \<noteq> []"
    with eq have "normalize a1 = normalize f2 @ CHR ''/'' # normalize a2" by (simp add: keyOf_def)
    then have "CHR ''/'' \<in> set (normalize a1)" by simp
    with assms show ?thesis by simp
  next
    assume "normalize f1 \<noteq> []" "normalize f2 = []"
    with eq have "normalize a2 = normalize f1 @ CHR ''/'' # normalize a1" by (simp add: keyOf_def)
    then have "CHR ''/'' \<in> set (normalize a2)" by simp
    with assms show ?thesis by simp
  next
    assume "normalize f1 \<noteq> []" "normalize f2 \<noteq> []"
    with eq have "normalize f1 @ CHR ''/'' # normalize a1 = normalize f2 @ CHR ''/'' # normalize a2"
      by (simp add: keyOf_def)
    then show ?thesis using assms by (rule split_last_slash[rotated 2])
  qed
next
  assume "normalize f1 = normalize f2 \<and> normalize a1 = normalize a2"
  then show "keyOf f1 a1 = keyOf f2 a2" by (simp add: keyOf_def)
qed

lemma validateShortcut_Inr_iff:
  "validateShortcut protocolOf d = Inr vtags \<longleftrightarrow>
     validateUrl protocolOf (d_url d) = Valid \<and> validateAlias (d_alias d) = Valid
     \<and> validateFolderName (d_folder d) = Valid \<and> validateTags (d_tags d) = TagsValid vtags"
  by (auto simp: validateShortcut_def errorOf_def Let_def
      split: tagsValidation.splits validation.splits)

lemma getShortcutByFullAlias_None_iff:
  "getShortcutByFullAlias f a st = None \<longleftrightarrow>
     \<not> (\<exists>s\<in>set st. identityOf s = (normalize f, normalize a))"
  by (auto simp: getShortcutByFullAlias_def find_None_iff identityOf_def Let_def)

lemma getShortcutByFullAlias_SomeD:
  "getShortcutByFullAlias f a st = Some e \<Longrightarrow>
     e \<in> set st \<and> identityOf e = (normalize f, normalize a)"
  by (auto simp: getShortcutByFullAlias_def find_Some_iff identityOf_def Let_def)

lemma storeAdd_fresh: "i \<notin> sid ` set st \<Longrightarrow> sid x = i \<Longrightarrow> storeAdd x st = Some (insort_key sid x st)"
  by (auto simp: storeAdd_def)

lemma storeAdd_SomeD:
  "storeAdd x st = Some st' \<Longrightarrow> st' = insort_key sid x st \<and> sid x \<notin> sid ` set st"
  by (auto simp: storeAdd_def split: if_splits)

lemma identityOf_created:
  "identityOf \<lparr> sid = i, url = u, aliasName = trim a,
       folder = (if f \<noteq> [] then trim f else []), tags = ts, createdAt = n, updatedAt = n',
       lastAccessed = la, lastAccessedAt = lb, accessCount = k, isFavorite = b \<rparr>
     = (normalize f, normalize a)"
  by (simp add: identityOf_def)


section \<open>Evaluation of the examples\<close>

lemmas eval_defs = validateUrl_def validateAlias_def validateFolderName_def validateTags_def
  validateTag_def tagEntries_def testPlus_def trim_def isWhiteSpace_def code_def toLowerCase_def
  lowerChar_def aliasChar_def folderChar_def isUpper_def isLower_def isDigit_def normalize_def
  schemeOf_def mkShortcut_def draftOf_def identityOf_def aliasMessage_def

section \<open>Creating a shortcut\<close>




section \<open>Uniqueness of the composite key\<close>

lemma distinct_map_insort_key:
  "distinct (map g (insort_key f x xs)) \<longleftrightarrow> g x \<notin> g ` set xs \<and> distinct (map g xs)"
  by (induction xs) (auto simp: set_insort_key)

lemma replace_preserves_distinct:
  assumes "distinct (map sid st)" and "distinct (map f st)"
    and "\<forall>s\<in>set st. f s = f x \<longrightarrow> sid s = i"
  shows "distinct (map f (map (\<lambda>s. if sid s = i then x else s) st))"
  using assms
proof (induction st)
  case Nil
  then show ?case by simp
next
  case (Cons a st)
  have tail: "distinct (map f (map (\<lambda>s. if sid s = i then x else s) st))"
    using Cons by simp
  show ?case
  proof (cases "sid a = i")
    case True
    then have "\<forall>s\<in>set st. sid s \<noteq> i" using Cons.prems(1) by (auto simp: image_iff)
    then have same: "map (\<lambda>s. if sid s = i then x else s) st = st"
      by (induction st) auto
    have "f x \<notin> f ` set st"
      using Cons.prems(3) \<open>\<forall>s\<in>set st. sid s \<noteq> i\<close> by auto
    then show ?thesis using True same Cons.prems(2) by simp
  next
    case False
    have "f a \<noteq> f (if sid s = i then x else s)" if "s \<in> set st" for s
    proof (cases "sid s = i")
      case True
      show ?thesis
      proof
        assume "f a = f (if sid s = i then x else s)"
        then have "f a = f x" using True by simp
        then show False using Cons.prems(3) False by auto
      qed
    next
      case False
      then show ?thesis using that Cons.prems(2) by auto
    qed
    then show ?thesis using False tail by (auto simp: o_def)
  qed
qed

lemma replace_map_sid:
  "sid x = i \<Longrightarrow> map sid (map (\<lambda>s. if sid s = i then x else s) st) = map sid st"
  by (induction st) auto

lemma storeGet_SomeD: "storeGet i st = Some e \<Longrightarrow> e \<in> set st \<and> sid e = i"
  by (auto simp: storeGet_def find_Some_iff)

lemma createShortcut_InrD:
  assumes "createShortcut protocolOf now newId d st = Inr (x, st')"
  shows "st' = insort_key sid x st \<and> sid x \<notin> sid ` set st
         \<and> identityOf x \<notin> identityOf ` set st \<and> validateAlias (aliasName x) = Valid"
proof -
  from assms obtain vtags where v: "validateShortcut protocolOf d = Inr vtags"
    by (auto simp: createShortcut_def split: sum.splits)
  from assms v have none: "getShortcutByFullAlias (d_folder d) (d_alias d) st = None"
    by (auto simp: createShortcut_def split: option.splits)
  from v have va: "validateAlias (d_alias d) = Valid" by (simp add: validateShortcut_Inr_iff)
  then have vt: "validateAlias (trim (d_alias d)) = Valid" by (simp add: validateAlias_Valid_iff)
  from none have "(normalize (d_folder d), normalize (d_alias d)) \<notin> identityOf ` set st"
    by (auto simp: getShortcutByFullAlias_None_iff)
  then show ?thesis
    using assms v none vt
    by (auto simp: createShortcut_def Let_def identityOf_created dest!: storeAdd_SomeD
        split: option.splits)
qed

lemma updateShortcut_InrD:
  assumes "updateShortcut protocolOf now i u st = Inr (x, st')"
    and "distinct (map identityOf st)"
    and "plainUpdate i u"
  shows "st' = map (\<lambda>s. if sid s = i then x else s) st \<and> sid x = i
         \<and> (\<forall>s\<in>set st. identityOf s = identityOf x \<longrightarrow> sid s = i)
         \<and> validateAlias (aliasName x) = Valid"
proof -
  from assms(1) obtain existing where ex: "storeGet i st = Some existing"
    by (auto simp: updateShortcut_def split: option.splits)
  then have mem: "existing \<in> set st" "sid existing = i" by (auto dest: storeGet_SomeD)
  let ?a = "merged (u_alias u) [] (aliasName existing)"
  let ?f = "merged (u_folder u) [] (folder existing)"
  let ?checked = "(case u_alias u of Given a \<Rightarrow> a \<noteq> [] | _ \<Rightarrow> False)
                    \<or> (case u_folder u of Given f \<Rightarrow> True | _ \<Rightarrow> False)"
  from assms(1) ex obtain vtags where
    v: "validateShortcut protocolOf \<lparr> d_url = merged (u_url u) [] (url existing), d_alias = ?a,
          d_folder = ?f,
          d_tags = merged (u_tags u) (TagsString []) (TagsArray (tags existing)) \<rparr> = Inr vtags"
    by (auto simp: updateShortcut_def Let_def split: sum.splits)
  then have va: "validateAlias ?a = Valid" by (simp add: validateShortcut_Inr_iff)
  from assms(1) ex v have
    noconf: "\<not> (?checked \<and> (case getShortcutByFullAlias ?f ?a st of
                                Some e \<Rightarrow> sid e \<noteq> i | None \<Rightarrow> False))"
    and x: "aliasName x = ?a" "folder x = ?f"
      "sid x = merged (u_id u) (sid existing) (sid existing)" "st' = storePut x st"
    by (auto simp: updateShortcut_def Let_def mem split: if_splits)
  have sx: "sid x = i" using x(3) assms(3) mem by (auto simp: plainUpdate_def merged_def)
  have idx: "identityOf x = (normalize ?f, normalize ?a)" by (simp add: identityOf_def x)
  have inj: "inj_on identityOf (set st)" using assms(2) by (simp add: distinct_map)
  have uniq: "\<forall>s\<in>set st. identityOf s = identityOf x \<longrightarrow> sid s = i"
  proof (cases ?checked)
    case True
    show ?thesis
    proof (cases "getShortcutByFullAlias ?f ?a st")
      case None
      then show ?thesis using idx by (auto simp: getShortcutByFullAlias_None_iff)
    next
      case (Some e)
      then have e: "e \<in> set st" "identityOf e = identityOf x"
        using idx by (auto dest: getShortcutByFullAlias_SomeD)
      have "sid e = i" using noconf True Some by auto
      moreover have "s = e" if "s \<in> set st" "identityOf s = identityOf x" for s
        using that e inj by (simp add: inj_on_def)
      ultimately show ?thesis by blast
    qed
  next
    case False
    have fa: "u_folder u = Absent"
      using False assms(3) by (cases "u_folder u") (auto simp: plainUpdate_def)
    have "u_alias u = Absent"
    proof (cases "u_alias u")
      case Undefined
      then have "validateAlias ?a = Invalid ''Alias is required''"
        by (simp add: merged_def validateAlias_def)
      then show ?thesis using va by simp
    next
      case (Given a)
      then have "a = []" using False by simp
      then have "validateAlias ?a = Invalid ''Alias is required''"
        using Given by (simp add: merged_def validateAlias_def)
      then show ?thesis using va by simp
    qed simp
    then have "identityOf x = identityOf existing"
      using fa idx by (simp add: identityOf_def merged_def)
    moreover have "s = existing" if "s \<in> set st" "identityOf s = identityOf existing" for s
      using that mem inj by (simp add: inj_on_def)
    ultimately show ?thesis using mem by metis
  qed
  have "sid x \<in> sid ` set st" using mem sx by force
  then have "st' = map (\<lambda>s. if sid s = i then x else s) st"
    using x sx by (simp add: storePut_def)
  then show ?thesis using x sx uniq va by simp
qed

lemma storedAliasesValid_replace:
  "storedAliasesValid st \<Longrightarrow> validateAlias (aliasName x) = Valid \<Longrightarrow>
     storedAliasesValid (map (\<lambda>s. if sid s = i then x else s) st)"
  by (auto simp: storedAliasesValid_def list_all_iff)

lemma storedAliasesValid_insort:
  "storedAliasesValid st \<Longrightarrow> validateAlias (aliasName x) = Valid \<Longrightarrow>
     storedAliasesValid (insort_key sid x st)"
  by (auto simp: storedAliasesValid_def list_all_iff set_insort_key)

lemma createShortcut_unique:
  "createShortcut protocolOf now newId d st = Inr (x, st') \<Longrightarrow> uniqueStore st \<Longrightarrow> uniqueStore st'"
  by (auto simp: uniqueStore_def distinct_map_insort_key dest!: createShortcut_InrD)

lemma createShortcut_aliases:
  "createShortcut protocolOf now newId d st = Inr (x, st') \<Longrightarrow> storedAliasesValid st
     \<Longrightarrow> storedAliasesValid st'"
  by (auto simp: storedAliasesValid_insort dest!: createShortcut_InrD)

lemma updateShortcut_unique:
  assumes "updateShortcut protocolOf now i u st = Inr (x, st')" and "uniqueStore st"
    and "plainUpdate i u"
  shows "uniqueStore st'"
proof -
  from assms have d: "st' = map (\<lambda>s. if sid s = i then x else s) st" "sid x = i"
    "\<forall>s\<in>set st. identityOf s = identityOf x \<longrightarrow> sid s = i"
    using updateShortcut_InrD [of protocolOf now i u st x st'] by (auto simp: uniqueStore_def)
  show ?thesis
    using assms(2) d replace_preserves_distinct [of st identityOf x i]
    by (simp add: uniqueStore_def replace_map_sid del: map_map)
qed

lemma updateShortcut_aliases:
  assumes "updateShortcut protocolOf now i u st = Inr (x, st')" and "uniqueStore st"
    and "storedAliasesValid st" and "plainUpdate i u"
  shows "storedAliasesValid st'"
  using assms updateShortcut_InrD [of protocolOf now i u st x st']
  by (auto simp: uniqueStore_def storedAliasesValid_replace)

lemma plainUpdate_folder: "plainUpdate i (noUpdates \<lparr> u_folder := Given newName \<rparr>)"
  by (simp add: plainUpdate_def noUpdates_def)

lemma renameLoop_unique:
  "uniqueStore st \<Longrightarrow> uniqueStore (snd (renameLoop protocolOf now newName xs st n))"
proof (induction xs arbitrary: st n)
  case Nil
  then show ?case by simp
next
  case (Cons a xs)
  then show ?case
    by (auto split: sum.splits option.splits
        dest: updateShortcut_unique [OF _ _ plainUpdate_folder])
qed

lemma renameLoop_aliases:
  "uniqueStore st \<Longrightarrow> storedAliasesValid st \<Longrightarrow>
     storedAliasesValid (snd (renameLoop protocolOf now newName xs st n))"
proof (induction xs arbitrary: st n)
  case Nil
  then show ?case by simp
next
  case (Cons a xs)
  then show ?case
    by (auto split: sum.splits option.splits
        dest: updateShortcut_unique [OF _ _ plainUpdate_folder]
          updateShortcut_aliases [OF _ _ _ plainUpdate_folder])
qed

lemma step_unique:
  "uniqueStore st \<Longrightarrow> plainOp op \<Longrightarrow> uniqueStore (step protocolOf op st)"
  by (cases op)
    (auto simp: step_def plainOp_def renameFolder_def renameLoop_unique split: sum.splits
      dest: createShortcut_unique updateShortcut_unique)

lemma step_aliases:
  "uniqueStore st \<Longrightarrow> storedAliasesValid st \<Longrightarrow> plainOp op
     \<Longrightarrow> storedAliasesValid (step protocolOf op st)"
  by (cases op)
    (auto simp: step_def plainOp_def renameFolder_def renameLoop_aliases split: sum.splits
      dest: createShortcut_aliases updateShortcut_aliases)

lemma states_unique:
  "uniqueStore st \<Longrightarrow> list_all plainOp ops \<Longrightarrow> st' \<in> set (states protocolOf ops st)
     \<Longrightarrow> uniqueStore st'"
proof (induction ops arbitrary: st)
  case Nil
  then show ?case by simp
next
  case (Cons op ops)
  then show ?case using step_unique [of st op protocolOf] by auto
qed

lemma states_aliases:
  "uniqueStore st \<Longrightarrow> storedAliasesValid st \<Longrightarrow> list_all plainOp ops
     \<Longrightarrow> st' \<in> set (states protocolOf ops st) \<Longrightarrow> storedAliasesValid st'"
proof (induction ops arbitrary: st)
  case Nil
  then show ?case by simp
next
  case (Cons op ops)
  then show ?case
    using step_unique [of st op protocolOf] step_aliases [of st op protocolOf] by auto
qed

lemma compositeKey_distinct:
  assumes "distinct (map identityOf st)" and "storedAliasesValid st"
  shows "distinct (map compositeKey st)"
proof -
  have d: "distinct st" and inj: "inj_on identityOf (set st)"
    using assms(1) by (auto simp: distinct_map)
  have "inj_on compositeKey (set st)"
  proof (rule inj_onI)
    fix s t assume st: "s \<in> set st" "t \<in> set st" "compositeKey s = compositeKey t"
    then have "validateAlias (aliasName s) = Valid" "validateAlias (aliasName t) = Valid"
      using assms(2) by (auto simp: storedAliasesValid_def list_all_iff)
    then have "identityOf s = identityOf t"
      using st(3) keyOf_eq_iff [OF validAlias_no_slash validAlias_no_slash,
          of "aliasName s" "aliasName t" "folder s" "folder t"]
      by (simp add: compositeKey_def identityOf_def)
    then show "s = t" using inj st by (auto dest: inj_onD)
  qed
  then show ?thesis using d by (simp add: distinct_map)
qed

lemma compositeKey_of_identity:
  "identityOf s = identityOf t \<Longrightarrow> compositeKey s = compositeKey t"
  by (simp add: identityOf_def compositeKey_def keyOf_def)

lemma distinct_compositeKey_identity:
  assumes "distinct (map compositeKey st)" shows "distinct (map identityOf st)"
proof -
  have "distinct st" and inj: "inj_on compositeKey (set st)"
    using assms by (auto simp: distinct_map)
  moreover have "inj_on identityOf (set st)"
    using inj by (auto simp: inj_on_def dest: compositeKey_of_identity)
  ultimately show ?thesis by (simp add: distinct_map)
qed

lemma states_last: "last (states protocolOf ops st) \<in> set (states protocolOf ops st)"
  by (cases ops) auto

text \<open>
  C1: the claim says that no sequence of operations leads to two shortcuts with the same
  composite key. On the store that holds \<open>work/meet\<close> (id \<open>id1\<close>) and \<open>other\<close> (id \<open>id2\<close>), the
  call \<open>updateShortcut('id1', {id: 'id2'})\<close> changes neither the alias nor the folder, so the
  conflict check is skipped; the merged record has the id \<open>id2\<close>, \<open>put\<close> writes it over
  \<open>other\<close>, and the store then holds \<open>work/meet\<close> twice.
\<close>

theorem updateShortcut_foreign_id_duplicates:
  "map (\<lambda>s. (sid s, compositeKey s)) foreignIdStore
     = [(''id1'', ''work/meet''), (''id2'', ''other'')]
   \<and> distinct (map compositeKey foreignIdStore)
   \<and> map (\<lambda>s. (sid s, compositeKey s))
         (step schemeOf (Update 5 ''id1'' (noUpdates \<lparr> u_id := Given ''id2'' \<rparr>)) foreignIdStore)
       = [(''id1'', ''work/meet''), (''id2'', ''work/meet'')]
   \<and> \<not> distinct (map compositeKey
         (step schemeOf (Update 5 ''id1'' (noUpdates \<lparr> u_id := Given ''id2'' \<rparr>))
            foreignIdStore))"
  by code_simp

text \<open>
  The same check is skipped for a folder that is present with the value \<open>undefined\<close>:
  on \<open>work/meet\<close> and \<open>meet\<close>, \<open>updateShortcut('id1', {folder: undefined})\<close> moves \<open>work/meet\<close>
  to the root folder, beside \<open>meet\<close>.
\<close>

lemma updateShortcut_undefined_folder_duplicates:
  "map compositeKey meetStore = [''work/meet'', ''meet'']
   \<and> map compositeKey
         (step schemeOf (Update 5 ''id1'' (noUpdates \<lparr> u_folder := Undefined \<rparr>)) meetStore)
       = [''meet'', ''meet'']"
  by code_simp

text \<open>
  For the other updates the invariant holds. From a store with one record per id and no
  two records with the same normalised (folder, alias) pair (a store with no duplicate
  composite keys is one, by \<open>distinct_compositeKey_identity\<close>), every store that a sequence of
  \<open>createShortcut\<close>, \<open>renameFolder\<close> and \<open>updateShortcut\<close> calls passes through, failed calls
  included, has no two records with the same pair, provided that no update carries another
  id or an \<open>undefined\<close> folder; and where the stored aliases of the first store are valid, no
  two records of any of these stores have the same composite key.
\<close>

lemma uniqueness_of_plain_operations:
  assumes "distinct (map sid st)" and "distinct (map identityOf st)"
    and "list_all plainOp ops"
  shows "\<forall>st'\<in>set (states protocolOf ops st).
           distinct (map identityOf st')
           \<and> (storedAliasesValid st \<longrightarrow> distinct (map compositeKey st'))"
proof
  fix st' assume m: "st' \<in> set (states protocolOf ops st)"
  have u: "uniqueStore st" using assms by (simp add: uniqueStore_def)
  then have "uniqueStore st'" using assms(3) m by (rule states_unique)
  then have 1: "distinct (map identityOf st')" by (simp add: uniqueStore_def)
  have "distinct (map compositeKey st')" if "storedAliasesValid st"
    using 1 states_aliases [OF u that assms(3) m] by (rule compositeKey_distinct)
  then show "distinct (map identityOf st')
           \<and> (storedAliasesValid st \<longrightarrow> distinct (map compositeKey st'))"
    using 1 by blast
qed

lemma uniqueness_of_plain_operations_example:
  "list_all plainOp exampleOps
   \<and> map compositeKey (last (states schemeOf exampleOps workMeetStore)) = [''team/meet'', ''meet'']
   \<and> distinct (map compositeKey (last (states schemeOf exampleOps workMeetStore)))"
proof -
  have h1: "distinct (map sid workMeetStore)"
    by (simp add: workMeetStore_def)
  have h2: "distinct (map identityOf workMeetStore)"
    by (simp add: workMeetStore_def)
  have h3: "storedAliasesValid workMeetStore"
    by (simp add: workMeetStore_def storedAliasesValid_def eval_defs)
  have h4: "list_all plainOp exampleOps"
    by (simp add: exampleOps_def plainOp_def plainUpdate_def noUpdates_def)
  have "distinct (map compositeKey (last (states schemeOf exampleOps workMeetStore)))"
    using uniqueness_of_plain_operations [OF h1 h2 h4, of schemeOf] h3
      states_last [of schemeOf exampleOps workMeetStore] by blast
  moreover have "map compositeKey (last (states schemeOf exampleOps workMeetStore))
                   = [''team/meet'', ''meet'']"
    by code_simp
  ultimately show ?thesis using h4 by simp
qed

section \<open>Renaming a folder\<close>

text \<open>
  C2: the claim says that a rename that fails on a collision moves no shortcut. On the store
  \<open>a/x\<close>, \<open>a/y\<close>, \<open>b/y\<close> the call \<open>renameFolder("a", "b")\<close> fails with the conflict on \<open>y\<close>, and
  the shortcut \<open>x\<close> (id 1) has been moved to \<open>b\<close> by then.
\<close>

theorem renameFolder_conflict_after_partial_move:
  "map (\<lambda>s. (sid s, folder s)) renameStore = [(''1'', ''a''), (''2'', ''a''), (''3'', ''b'')]
   \<and> fst (renameFolder schemeOf 5 ''a'' ''b'' renameStore) = Inl (RenameConflict ''y'')
   \<and> map (\<lambda>s. (sid s, folder s)) (snd (renameFolder schemeOf 5 ''a'' ''b'' renameStore))
       = [(''1'', ''b''), (''2'', ''a''), (''3'', ''b'')]"
  by code_simp

section \<open>The ranking of \<open>searchShortcuts\<close>\<close>

lemma code_char_of: "n < 256 \<Longrightarrow> code (char_of n) = n"
  by (simp add: code_def)

lemma lowerChar_slash: "lowerChar c = CHR ''/'' \<longleftrightarrow> c = CHR ''/''"
proof (cases "isUpper c \<or> (192 \<le> code c \<and> code c \<le> 222 \<and> code c \<noteq> 215)")
  case True
  then have "code c + 32 < 256" by (auto simp: isUpper_def)
  then have "code (lowerChar c) = code c + 32" using True by (simp add: lowerChar_def code_char_of)
  moreover have "code CHR ''/'' = 47" by (simp add: code_def)
  ultimately show ?thesis using True by (auto simp: isUpper_def)
next
  case False
  then have "lowerChar c = c" by (auto simp: lowerChar_def)
  then show ?thesis by simp
qed

lemma slash_toLowerCase: "CHR ''/'' \<in> set (toLowerCase s) \<longleftrightarrow> CHR ''/'' \<in> set s"
proof -
  have "(CHR ''/'' = lowerChar c) = (c = CHR ''/'')" for c
    using lowerChar_slash [of c] by auto
  then show ?thesis by (auto simp: toLowerCase_def image_iff)
qed

lemma set_trim: "set (trim s) \<subseteq> set s"
proof
  fix x assume "x \<in> set (trim s)"
  then have "x \<in> set (dropWhile isWhiteSpace (rev (dropWhile isWhiteSpace s)))"
    by (simp add: trim_def)
  then have "x \<in> set (rev (dropWhile isWhiteSpace s))" by (rule set_dropWhileD)
  then have "x \<in> set (dropWhile isWhiteSpace s)" by simp
  then show "x \<in> set s" by (rule set_dropWhileD)
qed

lemma toLowerCase_append: "toLowerCase (a @ b) = toLowerCase a @ toLowerCase b"
  by (simp add: toLowerCase_def)

lemma toLowerCase_slash: "toLowerCase ''/'' = ''/''"
  by (simp add: toLowerCase_def lowerChar_def isUpper_def code_def)

lemma startsWith_iff: "startsWith s q \<longleftrightarrow> (\<exists>v. s = q @ v)"
  by (induction s q rule: startsWith.induct) auto

lemma includesStr_iff: "includesStr s q \<longleftrightarrow> (\<exists>u v. s = u @ q @ v)"
proof (induction s)
  case Nil
  then show ?case by auto
next
  case (Cons c cs)
  show ?case
  proof
    assume "includesStr (c # cs) q"
    then consider "startsWith (c # cs) q" | "includesStr cs q" by auto
    then show "\<exists>u v. c # cs = u @ q @ v"
    proof cases
      case 1
      then obtain v where "c # cs = q @ v" by (auto simp: startsWith_iff)
      then have "c # cs = [] @ q @ v" by simp
      then show ?thesis by blast
    next
      case 2
      then obtain u v where "cs = u @ q @ v" using Cons.IH by auto
      then have "c # cs = (c # u) @ q @ v" by simp
      then show ?thesis by blast
    qed
  next
    assume "\<exists>u v. c # cs = u @ q @ v"
    then obtain u v where uv: "c # cs = u @ q @ v" by auto
    show "includesStr (c # cs) q"
    proof (cases u)
      case Nil
      then have "startsWith (c # cs) q" using uv by (auto simp: startsWith_iff)
      then show ?thesis by simp
    next
      case (Cons d u')
      then have "cs = u' @ q @ v" using uv by simp
      then have "includesStr cs q" using Cons.IH by auto
      then show ?thesis by simp
    qed
  qed
qed

lemma includesStr_sep:
  assumes "x \<notin> set q" and "q \<noteq> []"
  shows "includesStr (f @ x # a) q \<longleftrightarrow> includesStr f q \<or> includesStr a q"
proof
  assume "includesStr (f @ x # a) q"
  then obtain u v where uv: "f @ x # a = u @ q @ v" by (auto simp: includesStr_iff)
  then consider w where "f = u @ w" "w @ x # a = q @ v" | w where "f @ w = u" "x # a = w @ q @ v" "w \<noteq> []"
    by (auto simp: append_eq_append_conv2) (metis append_Nil2)
  then show "includesStr f q \<or> includesStr a q"
  proof cases
    case 1
    from 1(2) consider w' where "w = q @ w'" | w' where "w @ w' = q" "x # a = w' @ v" "w' \<noteq> []"
      by (auto simp: append_eq_append_conv2) (metis append_Nil2)
    then show ?thesis
    proof cases
      case 1
      then have "f = u @ q @ w'" using \<open>f = u @ w\<close> by simp
      then show ?thesis by (auto simp: includesStr_iff)
    next
      case 2
      then have "x \<in> set w'" by (cases w') auto
      then have "x \<in> set q" using 2(1) by auto
      then show ?thesis using assms(1) by simp
    qed
  next
    case 2
    then obtain w' where "w = x # w'" "a = w' @ q @ v" by (cases w) auto
    then show ?thesis by (auto simp: includesStr_iff)
  qed
next
  assume "includesStr f q \<or> includesStr a q"
  then show "includesStr (f @ x # a) q"
  proof
    assume "includesStr f q"
    then obtain u v where "f = u @ q @ v" by (auto simp: includesStr_iff)
    then have "f @ x # a = u @ q @ (v @ x # a)" by simp
    then show ?thesis unfolding includesStr_iff by blast
  next
    assume "includesStr a q"
    then obtain u v where "a = u @ q @ v" by (auto simp: includesStr_iff)
    then have "f @ x # a = (f @ x # u) @ q @ v" by simp
    then show ?thesis unfolding includesStr_iff by blast
  qed
qed

lemma lowerChar_slash_id: "lowerChar CHR ''/'' = CHR ''/''"
  by (simp add: lowerChar_slash)

lemma searchLoop_filter:
  assumes "CHR ''/'' \<notin> set q" and "q \<noteq> []"
  shows "searchLoop q xs (e, p, t, u) =
           (e @ filter (\<lambda>s. tierOf q s = 1) xs, p @ filter (\<lambda>s. tierOf q s = 2) xs,
            t @ filter (\<lambda>s. tierOf q s = 3) xs, u @ filter (\<lambda>s. tierOf q s = 4) xs)"
proof (induction xs arbitrary: e p t u)
  case Nil
  then show ?case by simp
next
  case (Cons s xs)
  let ?f = "toLowerCase (folder s)" and ?a = "toLowerCase (aliasName s)"
  have full: "toLowerCase (fullAliasOf s) = (if folder s = [] then ?a else ?f @ ''/'' @ ?a)"
    by (simp add: fullAliasOf_def toLowerCase_def lowerChar_slash_id)
  have neq: "?f @ ''/'' @ ?a \<noteq> q" using assms(1) by auto
  have inc: "includesStr (?f @ ''/'' @ ?a) q \<longleftrightarrow> includesStr ?f q \<or> includesStr ?a q"
    using includesStr_sep [OF assms, of ?f ?a] by simp
  have emp: "folder s = [] \<Longrightarrow> ?f = []" by (simp add: toLowerCase_def)
  have lst: "list_ex (\<lambda>t. includesStr t q) (map toLowerCase (tags s))
             = list_ex (\<lambda>t. includesStr (toLowerCase t) q) (tags s)"
    by (simp add: list_ex_iff)
  have t1: "tierOf q s = 1 \<longleftrightarrow> ?a = q \<or> ?f @ ''/'' @ ?a = q"
    using neq by (auto simp: tierOf_def full)
  have t2: "tierOf q s = 2 \<longleftrightarrow> \<not> (?a = q \<or> ?f @ ''/'' @ ?a = q)
              \<and> (includesStr ?a q \<or> includesStr (?f @ ''/'' @ ?a) q \<or> includesStr ?f q)"
    using neq inc by (auto simp: tierOf_def full)
  have t3: "tierOf q s = 3 \<longleftrightarrow> \<not> (?a = q \<or> ?f @ ''/'' @ ?a = q)
              \<and> \<not> (includesStr ?a q \<or> includesStr (?f @ ''/'' @ ?a) q \<or> includesStr ?f q)
              \<and> list_ex (\<lambda>t. includesStr t q) (map toLowerCase (tags s))"
    using neq inc unfolding lst by (auto simp: tierOf_def full)
  have t4: "tierOf q s = 4 \<longleftrightarrow> \<not> (?a = q \<or> ?f @ ''/'' @ ?a = q)
              \<and> \<not> (includesStr ?a q \<or> includesStr (?f @ ''/'' @ ?a) q \<or> includesStr ?f q)
              \<and> \<not> list_ex (\<lambda>t. includesStr t q) (map toLowerCase (tags s))
              \<and> includesStr (toLowerCase (url s)) q"
    using neq inc unfolding lst by (auto simp: tierOf_def full)
  show ?case
    unfolding searchLoop.simps Let_def Cons.IH filter.simps t1 t2 t3 t4
    by simp
qed


lemma toLowerCase_Nil_iff: "toLowerCase s = [] \<longleftrightarrow> s = []"
  by (simp add: toLowerCase_def)

text \<open>
  C4 as stated fails: for the query \<open>meet\<close> on the store that holds \<open>work/meet\<close> (id \<open>id1\<close>)
  before \<open>meet\<close> (id \<open>id2\<close>), both in tier 1, the reference ranking puts \<open>meet\<close> first and
  \<open>searchShortcuts\<close> returns \<open>work/meet\<close> first.
\<close>

theorem searchShortcuts_order_counterexample:
  "trim ''meet'' \<noteq> [] \<and> CHR ''/'' \<notin> set ''meet''
   \<and> map fullAliasOf (referenceSearch ''meet'' meetStore) = [''meet'', ''work/meet'']
   \<and> map fullAliasOf (searchShortcuts ''meet'' meetStore) = [''work/meet'', ''meet'']"
  by code_simp

text \<open>
  C4 (amended): for a query that is not blank and has no \<open>/\<close>, the result of
  \<open>searchShortcuts\<close> is tier 1, then tier 2, then tier 3, then tier 4 of the reference ranking
  (each candidate in the first tier it matches, so in at most one), and within each tier the
  results are in the order of the candidate list, which is the order of the record store;
  they are not sorted by full alias.
\<close>

theorem searchShortcuts_tiers_in_store_order:
  assumes "trim query \<noteq> []" and "CHR ''/'' \<notin> set query"
  shows "searchShortcuts query cands =
           concat (map (\<lambda>k. filter (\<lambda>s. tierOf (toLowerCase (trim query)) s = k) cands)
                       [1, 2, 3, 4])"
proof -
  let ?q = "toLowerCase (trim query)"
  have 1: "CHR ''/'' \<notin> set ?q"
    using assms(2) set_trim [of query] by (auto simp: slash_toLowerCase)
  have 2: "?q \<noteq> []" using assms(1) by (simp add: toLowerCase_Nil_iff)
  have 3: "query \<noteq> []" using assms(1) by auto
  show ?thesis
    by (simp add: searchShortcuts_def assms(1) 3 Let_def searchLoop_filter [OF 1 2])
qed

theorem searchShortcuts_tiers_in_store_order_witness:
  "searchShortcuts ''Meet '' meetStore = meetStore"
proof -
  have h1: "trim ''Meet '' \<noteq> []" by (simp add: trim_def isWhiteSpace_def code_def)
  have h2: "CHR ''/'' \<notin> set ''Meet ''" by simp
  have t: "map (tierOf (toLowerCase (trim ''Meet ''))) meetStore = [1, 1]"
    by code_simp
  show ?thesis
    using searchShortcuts_tiers_in_store_order [OF h1 h2, of meetStore] t
    by (simp add: meetStore_def)
qed

section \<open>The frequent shortcuts\<close>

lemma insertBy_accessCount:
  "insertBy (\<lambda>a b. int (accessCount b) - int (accessCount a)) x ys
     = insort_key (\<lambda>s. - int (accessCount s)) x ys"
  by (induction ys) auto

lemma sortBy_accessCount:
  "sortBy (\<lambda>a b. int (accessCount b) - int (accessCount a)) xs
     = sort_key (\<lambda>s. - int (accessCount s)) xs"
  by (induction xs) (auto simp: sortBy_def sort_key_def insertBy_accessCount)

text \<open>
  C9 as stated fails: of two shortcuts with the same access count, \<open>topFrequent\<close> prefers the
  one accessed more recently (\<open>new\<close>), and \<open>getFrequentShortcuts\<close> returns the one that comes
  first in the store (\<open>old\<close>).
\<close>

theorem getFrequentShortcuts_ties_counterexample:
  "map aliasName (topFrequent 2 frequentStore) = [''top'', ''new'']
   \<and> map aliasName (getFrequentShortcuts 2 frequentStore) = [''top'', ''old'']"
  by code_simp

text \<open>
  C9 (amended): for every \<open>n \<ge> 0\<close>, \<open>getFrequentShortcuts n\<close> returns the first \<open>n\<close> shortcuts
  of the store sorted stably by descending access count: the \<open>n\<close> shortcuts with the highest
  access count, in descending order of it, and shortcuts with equal access counts in the order
  of the record store (no tie-break on the last access or on the full alias).
\<close>

theorem getFrequentShortcuts_stable:
  assumes "0 \<le> n"
  shows "getFrequentShortcuts n st = take (nat n) (sort_key (\<lambda>s. - int (accessCount s)) st)
       \<and> sorted (rev (map accessCount (getFrequentShortcuts n st)))
       \<and> (\<forall>k. filter (\<lambda>s. accessCount s = k) (sort_key (\<lambda>s. - int (accessCount s)) st)
                = filter (\<lambda>s. accessCount s = k) st)"
proof -
  let ?f = "\<lambda>s. - int (accessCount s)"
  have eq: "getFrequentShortcuts n st = take (nat n) (sort_key ?f st)"
    using assms by (simp add: getFrequentShortcuts_def sliceFrom0_def sortBy_accessCount)
  have "sorted (map ?f (sort_key ?f st))" by simp
  then have "sorted (map ?f (take (nat n) (sort_key ?f st)))"
    by (simp add: sorted_wrt_take take_map [symmetric] del: sorted_sort_key)
  then have "sorted_wrt (\<lambda>a b. accessCount b \<le> accessCount a) (take (nat n) (sort_key ?f st))"
    by (simp add: sorted_wrt_map)
  then have srt: "sorted (rev (map accessCount (take (nat n) (sort_key ?f st))))"
    by (simp add: sorted_wrt_rev sorted_wrt_map rev_map [symmetric] del: rev_map)
  have stable: "filter (\<lambda>s. accessCount s = k) (sort_key ?f st)
                = filter (\<lambda>s. accessCount s = k) st" for k
  proof -
    have "filter (\<lambda>s. ?f s = - int k) (sort_key ?f st) = filter (\<lambda>s. ?f s = - int k) st"
      by (rule sort_key_stable)
    then show ?thesis by simp
  qed
  show ?thesis using eq srt stable by simp
qed

theorem getFrequentShortcuts_stable_witness:
  "map aliasName (getFrequentShortcuts 2 frequentStore) = [''top'', ''old'']
   \<and> map aliasName (take 2 (sort_key (\<lambda>s. - int (accessCount s)) frequentStore))
       = [''top'', ''old'']"
proof -
  have "map aliasName (getFrequentShortcuts 2 frequentStore) = [''top'', ''old'']"
    by code_simp
  then show ?thesis
    using getFrequentShortcuts_stable [of 2 frequentStore] by simp
qed

section \<open>The result cache\<close>

text \<open>
  C6 as stated fails: the query \<open>meet\<close> is searched and cached on the empty store; after
  \<open>createShortcut\<close> adds \<open>meet\<close>, the same query is served the cached empty result; and after
  \<open>deleteShortcut\<close> removes it again, a result cached in between still lists it.
\<close>

theorem performSearch_stale_counterexample:
  "map aliasName (searchShortcuts ''meet'' createdMeetStore) = [''meet'']
   \<and> fst (performSearch ''meet'' (snd (performSearch ''meet'' [] [])) createdMeetStore)
       = Results []
   \<and> searchShortcuts ''meet'' (deleteShortcut ''id1'' createdMeetStore) = []
   \<and> fst (performSearch ''meet'' (snd (performSearch ''meet'' [] createdMeetStore))
            (deleteShortcut ''id1'' createdMeetStore))
       = Results createdMeetStore"
  by code_simp

text \<open>
  C6 (amended): no mutation touches the result cache. A query whose result is cached is
  served that result whatever the store has become, until \<open>clearCache\<close> is called; the first
  search of a query after \<open>clearCache\<close> returns the ranking of the current store (for every
  query but \<open>constructor\<close> and \<open>__proto__\<close>, which the cache object inherits).
\<close>

theorem performSearch_cache:
  "(trim query \<noteq> [] \<and> map_of c (toLowerCase (trim query)) = Some r
      \<longrightarrow> performSearch query c st = (Results r, c))
   \<and> (\<not> inheritedProperty (toLowerCase (trim query))
      \<longrightarrow> fst (performSearch query (clearCache c) st) = Results (searchShortcuts query st))"
proof -
  have 1: "performSearch query c st = (Results r, c)"
    if "trim query \<noteq> []" "map_of c (toLowerCase (trim query)) = Some r"
  proof -
    have "query \<noteq> []" using that(1) by auto
    then show ?thesis using that by (simp add: performSearch_def cacheLookup_def)
  qed
  have 2: "fst (performSearch query (clearCache c) st) = Results (searchShortcuts query st)"
    if "\<not> inheritedProperty (toLowerCase (trim query))"
    using that
    by (auto simp: performSearch_def clearCache_def cacheLookup_def searchShortcuts_def Let_def)
  show ?thesis using 1 2 by blast
qed

theorem performSearch_cache_witness:
  "performSearch ''Meet'' [(''meet'', [])] createdMeetStore = (Results [], [(''meet'', [])])
   \<and> fst (performSearch ''Meet'' (clearCache [(''meet'', [])]) createdMeetStore)
       = Results (searchShortcuts ''Meet'' createdMeetStore)"
proof -
  have h1: "trim ''Meet'' \<noteq> []" by (simp add: trim_def isWhiteSpace_def code_def)
  have h2: "map_of [(''meet'', [])] (toLowerCase (trim ''Meet'')) = Some ([] :: shortcut list)"
    by code_simp
  have h3: "\<not> inheritedProperty (toLowerCase (trim ''Meet''))"
    by code_simp
  show ?thesis
    using performSearch_cache [of "''Meet''" "[(''meet'', [])]" "[]" createdMeetStore] h1 h2 h3
    by blast
qed

section \<open>Renaming a folder record\<close>

lemma folderService_renameFolder_exists:
  assumes "validateFolderName newName = Valid"
    and "\<not> caseInsensitiveEqual oldName newName"
    and "trim newName \<noteq> []"
    and "folderGet (trim newName) fs = Some f"
  shows "folderService_renameFolder protocolOf now oldName newName (fs, st)
           = (Inl (FolderExists (trim newName)), fs, st)"
  using assms
  by (simp add: folderService_renameFolder_def Let_def caseInsensitiveEqual_def
      getFolderByName_def)

text \<open>
  C10: the claim says that the rename fails when a folder record whose name is the new
  name up to case exists. With the folders \<open>Work\<close> (holding \<open>y\<close>) and \<open>a\<close> (holding \<open>x\<close>),
  \<open>renameFolder("a", "work")\<close> succeeds: the lookup of \<open>work\<close> misses the record \<open>Work\<close>, the
  shortcut \<open>x\<close> moves to \<open>work\<close>, the record \<open>work\<close> is added beside \<open>Work\<close>, and the shortcuts
  of the folder \<open>Work\<close> are then \<open>y\<close> and \<open>x\<close>.
\<close>

theorem folderService_renameFolder_case_variant:
  "caseInsensitiveEqual ''Work'' ''work''
   \<and> map f_name caseFolders = [''Work'', ''a'']
   \<and> map fullAliasOf caseStore = [''Work/y'', ''a/x'']
   \<and> fst (folderService_renameFolder schemeOf 9 ''a'' ''work'' (caseFolders, caseStore))
       = Inr (Some \<lparr> f_name = ''work'', f_createdAt = 9 \<rparr>)
   \<and> map f_name (fst (snd (folderService_renameFolder schemeOf 9 ''a'' ''work''
                              (caseFolders, caseStore))))
       = [''Work'', ''work'']
   \<and> map fullAliasOf
         (getShortcutsByFolder ''Work''
            (snd (snd (folderService_renameFolder schemeOf 9 ''a'' ''work''
                         (caseFolders, caseStore)))))
       = [''Work/y'', ''work/x'']"
  by code_simp

section \<open>Folder listing\<close>

lemma mset_insertBy: "mset (insertBy cmp x ys) = add_mset x (mset ys)"
  by (induction ys) auto

lemma mset_sortBy: "mset (sortBy cmp xs) = mset xs"
  by (induction xs) (auto simp: sortBy_def mset_insertBy)

lemma set_insertBy: "set (insertBy cmp x ys) = insert x (set ys)"
  by (induction ys) auto

lemma set_sortBy: "set (sortBy cmp xs) = set xs"
  by (induction xs) (auto simp: sortBy_def set_insertBy)

lemma sorted_insertBy:
  assumes total: "\<And>a b. cmp a b \<le> 0 \<or> cmp b a \<le> 0"
    and trans: "\<And>a b c. cmp a b \<le> 0 \<Longrightarrow> cmp b c \<le> 0 \<Longrightarrow> cmp a c \<le> 0"
    and "sorted_wrt (\<lambda>a b. cmp a b \<le> 0) ys"
  shows "sorted_wrt (\<lambda>a b. cmp a b \<le> 0) (insertBy cmp x ys)"
  using assms(3)
proof (induction ys)
  case Nil
  then show ?case by simp
next
  case (Cons y ys)
  show ?case
  proof (cases "cmp x y \<le> 0")
    case True
    then have "\<forall>z\<in>set ys. cmp x z \<le> 0" using Cons.prems trans by auto
    then show ?thesis using True Cons.prems by simp
  next
    case False
    then have "cmp y x \<le> 0" using total by blast
    then show ?thesis using False Cons by (auto simp: set_insertBy)
  qed
qed

lemma sorted_sortBy:
  assumes "\<And>a b. cmp a b \<le> 0 \<or> cmp b a \<le> 0"
    and "\<And>a b c. cmp a b \<le> 0 \<Longrightarrow> cmp b c \<le> 0 \<Longrightarrow> cmp a c \<le> 0"
  shows "sorted_wrt (\<lambda>a b. cmp a b \<le> 0) (sortBy cmp xs)"
proof (induction xs)
  case Nil
  then show ?case by (simp add: sortBy_def)
next
  case (Cons x xs)
  have "sortBy cmp (x # xs) = insertBy cmp x (sortBy cmp xs)" by (simp add: sortBy_def)
  then show ?case using sorted_insertBy [OF assms Cons] by simp
qed

lemma includesStr_single: "includesStr s [c] \<longleftrightarrow> c \<in> set s"
  by (induction s) (auto simp: startsWith_iff)

lemma slash_not_blank:
  assumes "includesStr (toLowerCase query) ''/''" shows "trim query \<noteq> []"
proof -
  have "CHR ''/'' \<in> set query"
    using assms by (simp add: includesStr_single slash_toLowerCase)
  moreover have "\<not> isWhiteSpace CHR ''/''" by (simp add: isWhiteSpace_def code_def)
  ultimately show ?thesis by (auto simp: trim_Nil_iff)
qed

lemma defaultSortFunction_le:
  assumes "trim query \<noteq> []"
  shows "defaultSortFunction lc query a b \<le> 0 \<longleftrightarrow>
           getMatchScore (toLowerCase query) b < getMatchScore (toLowerCase query) a
           \<or> (getMatchScore (toLowerCase query) a = getMatchScore (toLowerCase query) b
              \<and> lc (toLowerCase (aliasName a)) (toLowerCase (aliasName b)) \<le> 0)"
  using assms by (auto simp: defaultSortFunction_def Let_def)

text \<open>
  C5 as stated fails: for the query \<open>work/\<close> on \<open>workshop/a\<close>, \<open>work/b\<close>, \<open>home/c\<close> the
  listing by alias ascending is \<open>a\<close>, \<open>b\<close>; the debounced search returns \<open>b\<close> before \<open>a\<close>, and
  \<open>searchShortcuts\<close>, which has no folder syntax, returns \<open>b\<close> alone.
\<close>

theorem folder_listing_counterexample:
  "map aliasName (referenceListing ''work/'' listingItems) = [''a'', ''b'']
   \<and> map aliasName (filteredItems compareStrings listingItems ''work/'') = [''b'', ''a'']
   \<and> map aliasName (searchShortcuts ''work/'' listingItems) = [''b'']"
  by code_simp

text \<open>
  C5 (amended): for every query whose lower-cased form has a \<open>/\<close> with nothing between the
  first \<open>/\<close> and the next one or the end, the folder part being the text before the first
  \<open>/\<close>, the debounced search returns exactly the shortcuts whose lower-cased folder
  contains the folder part, each exactly once; the shortcuts whose folder is the folder part
  come first, the others after them, and each of the two groups is ordered by alias
  ascending in the sense of \<open>localeCompare\<close> (a total preorder).
\<close>

theorem filteredItems_folder_listing:
  assumes total: "\<forall>x y. localeCompare x y \<le> 0 \<or> localeCompare y x \<le> 0"
    and trans: "\<forall>x y z. localeCompare x y \<le> 0 \<and> localeCompare y z \<le> 0
                  \<longrightarrow> localeCompare x z \<le> 0"
    and slash: "includesStr (toLowerCase query) ''/''"
    and noAlias: "aliasPartOf (toLowerCase query) = []"
  shows "mset (filteredItems localeCompare items query)
           = mset (filter (\<lambda>s. includesStr (toLowerCase (folder s))
                                  (folderPartOf (toLowerCase query))) items)
       \<and> sorted_wrt
           (\<lambda>a b. (exactFolder query b \<longrightarrow> exactFolder query a)
                 \<and> (exactFolder query a = exactFolder query b \<longrightarrow>
                      localeCompare (toLowerCase (aliasName a)) (toLowerCase (aliasName b)) \<le> 0))
           (filteredItems localeCompare items query)"
proof -
  let ?st = "toLowerCase query"
  let ?P = "\<lambda>s. includesStr (toLowerCase (folder s)) (folderPartOf ?st)"
  let ?cmp = "defaultSortFunction localeCompare query"
  have nb: "trim query \<noteq> []" using slash by (rule slash_not_blank)
  have flt: "filter (\<lambda>item. defaultSearchFunction item query) items = filter ?P items"
    using nb slash noAlias by (simp add: defaultSearchFunction_def Let_def)
  have res: "filteredItems localeCompare items query = sortBy ?cmp (filter ?P items)"
    using nb by (simp add: filteredItems_def flt)
  have le_total: "?cmp a b \<le> 0 \<or> ?cmp b a \<le> 0" for a b
    using total by (auto simp: defaultSortFunction_le [OF nb])
  have le_trans: "?cmp a c \<le> 0" if "?cmp a b \<le> 0" "?cmp b c \<le> 0" for a b c
  proof -
    have "localeCompare (toLowerCase (aliasName a)) (toLowerCase (aliasName c)) \<le> 0"
      if "localeCompare (toLowerCase (aliasName a)) (toLowerCase (aliasName b)) \<le> 0"
        "localeCompare (toLowerCase (aliasName b)) (toLowerCase (aliasName c)) \<le> 0"
      using that trans by blast
    then show ?thesis
      using that by (auto simp: defaultSortFunction_le [OF nb])
  qed
  have srt: "sorted_wrt (\<lambda>a b. ?cmp a b \<le> 0) (sortBy ?cmp (filter ?P items))"
    using le_total le_trans by (rule sorted_sortBy)
  have score: "getMatchScore ?st s = (if exactFolder query s then 100 else 50)" if "?P s" for s
    using that slash noAlias by (simp add: getMatchScore_def Let_def exactFolder_def)
  have "sorted_wrt
           (\<lambda>a b. (exactFolder query b \<longrightarrow> exactFolder query a)
                 \<and> (exactFolder query a = exactFolder query b \<longrightarrow>
                      localeCompare (toLowerCase (aliasName a)) (toLowerCase (aliasName b)) \<le> 0))
           (sortBy ?cmp (filter ?P items))"
  proof (rule sorted_wrt_mono_rel [OF _ srt])
    fix a b
    assume "a \<in> set (sortBy ?cmp (filter ?P items))" "b \<in> set (sortBy ?cmp (filter ?P items))"
      and le: "?cmp a b \<le> 0"
    then have "?P a" "?P b" by (simp_all add: set_sortBy)
    then show "(exactFolder query b \<longrightarrow> exactFolder query a)
                 \<and> (exactFolder query a = exactFolder query b \<longrightarrow>
                      localeCompare (toLowerCase (aliasName a)) (toLowerCase (aliasName b)) \<le> 0)"
      using le by (auto simp: defaultSortFunction_le [OF nb] score split: if_splits)
  qed
  then show ?thesis by (simp add: res mset_sortBy)
qed


lemma compareStrings_le: "compareStrings x y \<le> 0 \<longleftrightarrow> x \<le> y"
  by (auto simp: compareStrings_def)

theorem filteredItems_folder_listing_witness:
  "mset (filteredItems compareStrings listingItems ''Work/'')
     = mset [mkShortcut ''1'' ''workshop'' ''a'', mkShortcut ''2'' ''work'' ''b'']
   \<and> map aliasName (filteredItems compareStrings listingItems ''Work/'') = [''b'', ''a'']"
proof -
  have total: "\<forall>x y. compareStrings x y \<le> 0 \<or> compareStrings y x \<le> 0"
    by (auto simp: compareStrings_le)
  have trans: "\<forall>x y z. compareStrings x y \<le> 0 \<and> compareStrings y z \<le> 0
                 \<longrightarrow> compareStrings x z \<le> 0"
    by (auto simp: compareStrings_le)
  have slash: "includesStr (toLowerCase ''Work/'') ''/''" by code_simp
  have noAlias: "aliasPartOf (toLowerCase ''Work/'') = []" by code_simp
  have flt: "filter (\<lambda>s. includesStr (toLowerCase (folder s))
                             (folderPartOf (toLowerCase ''Work/''))) listingItems
               = [mkShortcut ''1'' ''workshop'' ''a'', mkShortcut ''2'' ''work'' ''b'']"
    by code_simp
  have "mset (filteredItems compareStrings listingItems ''Work/'')
          = mset [mkShortcut ''1'' ''workshop'' ''a'', mkShortcut ''2'' ''work'' ''b'']"
    using filteredItems_folder_listing [OF total trans slash noAlias, of listingItems]
    unfolding flt by blast
  moreover have "map aliasName (filteredItems compareStrings listingItems ''Work/'')
                   = [''b'', ''a'']"
    by code_simp
  ultimately show ?thesis by blast
qed

end
